theory Spec2Isabelle
  imports Main "HOL-Library.Word" "HOL-Library.Multiset"
begin

unbundle bit_operations_syntax

section \<open>The identifier module of pymdht (core/identifier.py)\<close>

text \<open>
  The module is Python 2: a \<open>str\<close> is a sequence of 8-bit characters, so the same type
  holds raw identifiers and their hexadecimal form. It is modelled by \<open>string\<close>, whose
  characters are bytes; \<open>ord\<close> is \<open>of_char\<close> and \<open>chr\<close> is \<open>char_of\<close> on 0..255.
  Python integers are unbounded and are modelled by \<open>int\<close>.
\<close>

definition BITS_PER_BYTE :: int where
  "BITS_PER_BYTE = 8"

definition ID_SIZE_BYTES :: int where
  "ID_SIZE_BYTES = 20"

definition ID_SIZE_BITS :: int where
  "ID_SIZE_BITS = ID_SIZE_BYTES * BITS_PER_BYTE"

datatype error = IdError | TypeError | IndexError | AssertionError | ValueError

subsection \<open>The library functions the module calls\<close>

text \<open>
  \<open>base64.b16encode\<close>, \<open>base64.b16decode\<close>, the format \<open>'%040x'\<close>, \<open>int(s, 16)\<close>,
  \<open>ord\<close> and \<open>chr\<close> belong to the Python 2 standard library. Their models follow the
  library: \<open>b16decode(s, casefold)\<close> upper-cases \<open>s\<close> only when \<open>casefold\<close> is true, raises
  TypeError when a character outside \<open>0-9A-F\<close> remains, and hands the rest to
  \<open>binascii.unhexlify\<close>, which raises TypeError on an odd length.
\<close>

definition ord :: "char \<Rightarrow> int" where
  "ord c = of_char c"

definition chr :: "int \<Rightarrow> error + char" where
  "chr n = (if 0 \<le> n \<and> n < 256 then Inr (char_of n) else Inl ValueError)"

definition upper_digits :: string where
  "upper_digits = ''0123456789ABCDEF''"

definition lower_digits :: string where
  "lower_digits = ''0123456789abcdef''"

definition hexlify_upper :: "string \<Rightarrow> string" where
  "hexlify_upper s =
     concat (map (\<lambda>c. [upper_digits ! (of_char c div 16), upper_digits ! (of_char c mod 16)]) s)"

definition b16encode :: "string \<Rightarrow> string" where
  "b16encode s = hexlify_upper s"

definition upper_char :: "char \<Rightarrow> char" where
  "upper_char c =
     (if (97::nat) \<le> of_char c \<and> of_char c \<le> (122::nat) then char_of (of_char c - (32::nat)) else c)"

definition str_upper :: "string \<Rightarrow> string" where
  "str_upper s = map upper_char s"

definition hex_value :: "char \<Rightarrow> nat option" where
  "hex_value c =
     (let n = (of_char c :: nat) in
      if 48 \<le> n \<and> n \<le> 57 then Some (n - 48)
      else if 65 \<le> n \<and> n \<le> 70 then Some (n - 55)
      else if 97 \<le> n \<and> n \<le> 102 then Some (n - 87)
      else None)"

definition is_b16_char :: "char \<Rightarrow> bool" where
  "is_b16_char c =
     (let n = (of_char c :: nat) in (48 \<le> n \<and> n \<le> 57) \<or> (65 \<le> n \<and> n \<le> 70))"

fun unhexlify :: "string \<Rightarrow> error + string" where
  "unhexlify [] = Inr []"
| "unhexlify [c] = Inl TypeError"
| "unhexlify (a # b # r) =
     (case hex_value a of
        None \<Rightarrow> Inl TypeError
      | Some h \<Rightarrow>
          (case hex_value b of
             None \<Rightarrow> Inl TypeError
           | Some l \<Rightarrow>
               (case unhexlify r of
                  Inl e \<Rightarrow> Inl e
                | Inr bs \<Rightarrow> Inr (char_of (16 * h + l) # bs))))"

definition b16decode :: "string \<Rightarrow> bool \<Rightarrow> error + string" where
  "b16decode s casefold =
     (let s' = (if casefold then str_upper s else s) in
      if list_ex (\<lambda>c. \<not> is_b16_char c) s' then Inl TypeError
      else if odd (length s') then Inl TypeError
      else unhexlify s')"

fun hex_digits :: "nat \<Rightarrow> string" where
  "hex_digits n =
     (if n < 16 then [lower_digits ! n]
      else hex_digits (n div 16) @ [lower_digits ! (n mod 16)])"

declare hex_digits.simps [simp del]

definition zero_pad :: "nat \<Rightarrow> string \<Rightarrow> string" where
  "zero_pad w s = replicate (w - length s) (CHR ''0'') @ s"

text \<open>\<open>'%040x' % n\<close>: lower-case digits, zero-filled to width 40; a sign counts in the width.\<close>

definition format_040x :: "int \<Rightarrow> string" where
  "format_040x n =
     (if n < 0 then CHR ''-'' # zero_pad 39 (hex_digits (nat (- n)))
      else zero_pad 40 (hex_digits (nat n)))"

text \<open>
  \<open>int(s, 16)\<close> is modelled on the strings the module gives it, which consist of
  hexadecimal digits; on any other string the model answers ValueError.
\<close>

definition int_16 :: "string \<Rightarrow> error + int" where
  "int_16 s =
     (if s = [] \<or> list_ex (\<lambda>c. hex_value c = None) s then Inl ValueError
      else Inr (foldl (\<lambda>acc c. 16 * acc + int (the (hex_value c))) 0 s))"

subsection \<open>Module-level helpers\<close>

definition bin_to_hex :: "string \<Rightarrow> string" where
  "bin_to_hex bin_str = b16encode bin_str"

definition hex_to_bin :: "string \<Rightarrow> error + string" where
  "hex_to_bin hex_str =
     (case b16decode hex_str True of Inl e \<Rightarrow> Inl IdError | Inr b \<Rightarrow> Inr b)"

definition byte_xor :: "char \<Rightarrow> char \<Rightarrow> error + char" where
  "byte_xor byte1 byte2 = chr (ord byte1 XOR ord byte2)"

text \<open>
  \<open>_first_different_byte\<close>: the loop runs over the indices of \<open>str1\<close>; reading \<open>str2\<close>
  past its end raises IndexError, the same exception as finding no difference.
\<close>

function first_different_byte_from :: "nat \<Rightarrow> string \<Rightarrow> string \<Rightarrow> error + nat" where
  "first_different_byte_from i str1 str2 =
     (if i < length str1 then
        (if i < length str2 then
           (if str1 ! i \<noteq> str2 ! i then Inr i
            else first_different_byte_from (Suc i) str1 str2)
         else Inl IndexError)
      else Inl IndexError)"
  by pat_completeness auto
termination
  by (relation "measure (\<lambda>(i, str1, str2). length str1 - i)") auto

declare first_different_byte_from.simps [simp del]

definition first_different_byte :: "string \<Rightarrow> string \<Rightarrow> error + nat" where
  "first_different_byte str1 str2 = first_different_byte_from 0 str1 str2"

text \<open>
  \<open>_first_different_bit\<close>: the while loop shifts an unbounded integer to the left until
  bit 7 or a higher bit is set. On 0 it never ends, so the loop is a partial function
  whose value \<open>None\<close> is "does not return".
\<close>

partial_function (option) first_different_bit_loop :: "int \<Rightarrow> nat \<Rightarrow> nat option" where
  "first_different_bit_loop byte i =
     (if drop_bit (nat (BITS_PER_BYTE - 1)) byte = 0
      then first_different_bit_loop (push_bit 1 byte) (i + 1)
      else Some i)"

declare first_different_bit_loop.simps [code]

definition first_different_bit :: "char \<Rightarrow> char \<Rightarrow> (error + nat) option" where
  "first_different_bit byte1 byte2 =
     (if \<not> (byte1 \<noteq> byte2) then Some (Inl AssertionError)
      else map_option Inr (first_different_bit_loop (ord byte1 XOR ord byte2) 0))"

subsection \<open>The class Id\<close>

datatype pyobj = PyStr string | PyInt int | PyOther

record Id =
  p_bin_id :: string
  p_bin :: string
  p_hex :: "string option"
  p_int :: "int option"

text \<open>
  \<open>Id.__init__\<close>. The fields start as None; \<open>init_finish\<close> is the tail of the
  constructor, which raises IdError when \<open>_bin_id\<close> is None or empty and otherwise
  copies it to \<open>_bin\<close>. An object exists only when the constructor returns.
\<close>

definition init_finish :: "string option \<Rightarrow> string option \<Rightarrow> int option \<Rightarrow> error + Id" where
  "init_finish b h n =
     (case b of
        None \<Rightarrow> Inl IdError
      | Some s \<Rightarrow>
          if s = [] then Inl IdError
          else Inr \<lparr>p_bin_id = s, p_bin = s, p_hex = h, p_int = n\<rparr>)"

definition Id_init :: "pyobj \<Rightarrow> error + Id" where
  "Id_init hex_or_bin_id =
     (case hex_or_bin_id of
        PyStr s \<Rightarrow>
          if int (length s) = ID_SIZE_BYTES then init_finish (Some s) None None
          else if int (length s) = ID_SIZE_BYTES * 2 then
            (case hex_to_bin s of
               Inl e \<Rightarrow> Inl e
             | Inr b \<Rightarrow> init_finish (Some b) (Some s) None)
          else init_finish None None None
      | PyInt n \<Rightarrow>
          (case b16decode (format_040x n) False of
             Inl e \<Rightarrow> Inl e
           | Inr b \<Rightarrow> init_finish (Some b) (Some (format_040x n)) (Some n))
      | PyOther \<Rightarrow> init_finish None None None)"

definition Id_bin_id :: "Id \<Rightarrow> string" where
  "Id_bin_id self = p_bin self"

definition Id_bin :: "Id \<Rightarrow> string" where
  "Id_bin self = p_bin self"

text \<open>
  The properties \<open>hex\<close> and \<open>int\<close> fill a cache on the object: they return the value
  and the object after the call. \<open>not self._hex\<close> holds for None and for the empty
  string, \<open>not self._int\<close> for None and for 0.
\<close>

definition Id_hex :: "Id \<Rightarrow> string \<times> Id" where
  "Id_hex self =
     (case p_hex self of
        None \<Rightarrow> (bin_to_hex (p_bin self), self\<lparr>p_hex := Some (bin_to_hex (p_bin self))\<rparr>)
      | Some h \<Rightarrow>
          if h = [] then (bin_to_hex (p_bin self), self\<lparr>p_hex := Some (bin_to_hex (p_bin self))\<rparr>)
          else (h, self))"

definition Id_int_fill :: "Id \<Rightarrow> (error + int) \<times> Id" where
  "Id_int_fill self =
     (case Id_hex self of
        (h, self1) \<Rightarrow>
          (case int_16 h of
             Inl e \<Rightarrow> (Inl e, self1)
           | Inr n \<Rightarrow> (Inr n, self1\<lparr>p_int := Some n\<rparr>)))"

definition Id_int :: "Id \<Rightarrow> (error + int) \<times> Id" where
  "Id_int self =
     (case p_int self of
        None \<Rightarrow> Id_int_fill self
      | Some n \<Rightarrow> if n = 0 then Id_int_fill self else (Inr n, self))"

definition Id_eq :: "Id \<Rightarrow> Id \<Rightarrow> bool" where
  "Id_eq self other = (Id_bin_id self = Id_bin_id other)"

definition Id_ne :: "Id \<Rightarrow> Id \<Rightarrow> bool" where
  "Id_ne self other = (\<not> Id_eq self other)"

definition Id_repr :: "Id \<Rightarrow> string \<times> Id" where
  "Id_repr self = Id_hex self"

text \<open>
  \<open>distance\<close> reads \<open>self.int\<close>, then \<open>other.int\<close>, and constructs an Id from the XOR of
  the two integers. The result comes with the two operands after their caches were
  filled.
\<close>

definition distance :: "Id \<Rightarrow> Id \<Rightarrow> (error + Id) \<times> Id \<times> Id" where
  "distance self other =
     (case Id_int self of
        (Inl e, self1) \<Rightarrow> (Inl e, self1, other)
      | (Inr a, self1) \<Rightarrow>
          (case Id_int other of
             (Inl e, other1) \<Rightarrow> (Inl e, self1, other1)
           | (Inr b, other1) \<Rightarrow> (Id_init (PyInt (a XOR b)), self1, other1)))"

text \<open>
  \<open>log_distance\<close>: the IndexError of \<open>_first_different_byte\<close> is caught and answered
  with -1. \<open>None\<close> stands for a bit scan that does not return.
\<close>

definition log_distance :: "Id \<Rightarrow> Id \<Rightarrow> (error + int) option" where
  "log_distance self other =
     (case first_different_byte (Id_bin_id self) (Id_bin_id other) of
        Inl e \<Rightarrow> (if e = IndexError then Some (Inr (- 1)) else Some (Inl e))
      | Inr byte_i \<Rightarrow>
          (let unmatching_bytes = ID_SIZE_BYTES - int byte_i - 1;
               byte1 = Id_bin_id self ! byte_i;
               byte2 = Id_bin_id other ! byte_i
           in case first_different_bit byte1 byte2 of
                None \<Rightarrow> None
              | Some (Inl e) \<Rightarrow> Some (Inl e)
              | Some (Inr bit_i) \<Rightarrow>
                  (let unmatching_bits = BITS_PER_BYTE - int bit_i - 1
                   in Some (Inr (unmatching_bytes * BITS_PER_BYTE + unmatching_bits)))))"

text \<open>
  \<open>order_closest\<close> works on mutable lists. The lists of Id objects live in a store,
  addressed by position; \<open>id_list[:]\<close> and \<open>[]\<close> allocate a new list, \<open>append\<close> and
  \<open>del\<close> update the list at an address. The function receives the address of
  \<open>id_list\<close> and returns the address of \<open>result\<close> with the store after the call.
\<close>

type_synonym store = "Id list list"

definition alloc :: "store \<Rightarrow> Id list \<Rightarrow> nat \<times> store" where
  "alloc h xs = (length h, h @ [xs])"

definition del_at :: "nat \<Rightarrow> 'a list \<Rightarrow> 'a list" where
  "del_at i xs = take i xs @ drop (Suc i) xs"

fun log_distances :: "Id \<Rightarrow> Id list \<Rightarrow> (error + int list) option" where
  "log_distances self [] = Some (Inr [])"
| "log_distances self (element # rest) =
     (case log_distance self element of
        None \<Rightarrow> None
      | Some (Inl e) \<Rightarrow> Some (Inl e)
      | Some (Inr d) \<Rightarrow>
          (case log_distances self rest of
             None \<Rightarrow> None
           | Some (Inl e) \<Rightarrow> Some (Inl e)
           | Some (Inr ds) \<Rightarrow> Some (Inr (d # ds))))"

text \<open>The inner loop over \<open>j\<close>: the leftmost index whose distance is below every earlier one.\<close>

function lowest_scan :: "nat \<Rightarrow> nat \<Rightarrow> int list \<Rightarrow> nat option \<Rightarrow> int \<Rightarrow> error + nat option" where
  "lowest_scan j n log_distance_list lowest_index lowest_distance =
     (if j < n then
        (if j < length log_distance_list then
           (if log_distance_list ! j < lowest_distance
            then lowest_scan (Suc j) n log_distance_list (Some j) (log_distance_list ! j)
            else lowest_scan (Suc j) n log_distance_list lowest_index lowest_distance)
         else Inl IndexError)
      else Inr lowest_index)"
  by pat_completeness auto
termination
  by (relation "measure (\<lambda>(j, n, l, li, ld). n - j)") auto

declare lowest_scan.simps [simp del]

text \<open>
  The outer loop, \<open>len(id_list)\<close> rounds: \<open>id_list_copy[None]\<close> raises TypeError, an index
  past the end raises IndexError.
\<close>

fun select_loop :: "nat \<Rightarrow> nat \<Rightarrow> nat \<Rightarrow> int list \<Rightarrow> store \<Rightarrow> (error + unit) \<times> store" where
  "select_loop 0 id_list_copy result log_distance_list h = (Inr (), h)"
| "select_loop (Suc k) id_list_copy result log_distance_list h =
     (case lowest_scan 0 (length (h ! id_list_copy)) log_distance_list None (ID_SIZE_BITS + 1) of
        Inl e \<Rightarrow> (Inl e, h)
      | Inr None \<Rightarrow> (Inl TypeError, h)
      | Inr (Some lowest_index) \<Rightarrow>
          if lowest_index < length (h ! id_list_copy) then
            (let h1 = h[result := (h ! result) @ [h ! id_list_copy ! lowest_index]] in
             if lowest_index < length log_distance_list then
               select_loop k id_list_copy result (del_at lowest_index log_distance_list)
                 (h1[id_list_copy := del_at lowest_index (h1 ! id_list_copy)])
             else (Inl IndexError, h1))
          else (Inl IndexError, h))"

definition order_closest :: "Id \<Rightarrow> nat \<Rightarrow> store \<Rightarrow> ((error + nat) \<times> store) option" where
  "order_closest self id_list h =
     (case alloc h (h ! id_list) of
        (id_list_copy, h1) \<Rightarrow>
          (case log_distances self (h1 ! id_list) of
             None \<Rightarrow> None
           | Some (Inl e) \<Rightarrow> Some (Inl e, h1)
           | Some (Inr log_distance_list) \<Rightarrow>
               (case alloc h1 [] of
                  (result, h2) \<Rightarrow>
                    (case select_loop (length (h2 ! id_list)) id_list_copy result
                            log_distance_list h2 of
                       (Inl e, h3) \<Rightarrow> Some (Inl e, h3)
                     | (Inr u, h3) \<Rightarrow> Some (Inr result, h3)))))"

text \<open>
  \<open>generate_close_id\<close> draws from the process-wide generator of \<open>random\<close>. The generator
  is a sequence of raw draws and a cursor; \<open>randint(a, b)\<close> takes the next draw into
  \<open>a..b\<close>, so every sequence of results of \<open>randint\<close> is the image of some generator.
\<close>

record rng =
  draws :: "nat \<Rightarrow> nat"
  cursor :: nat

definition randint :: "int \<Rightarrow> int \<Rightarrow> rng \<Rightarrow> int \<times> rng" where
  "randint a b g =
     (a + int (draws g (cursor g)) mod (b - a + 1), g\<lparr>cursor := Suc (cursor g)\<rparr>)"

text \<open>Python indexing and slicing of a \<open>str\<close>: a negative index counts from the end.\<close>

definition str_index :: "string \<Rightarrow> int \<Rightarrow> error + char" where
  "str_index s i =
     (let n = int (length s); j = (if i < 0 then n + i else i)
      in if 0 \<le> j \<and> j < n then Inr (s ! nat j) else Inl IndexError)"

definition str_slice_to :: "string \<Rightarrow> int \<Rightarrow> string" where
  "str_slice_to s k = (if k < 0 then take (nat (int (length s) + k)) s else take (nat k) s)"

function randomize_bits :: "nat \<Rightarrow> nat \<Rightarrow> int \<Rightarrow> rng \<Rightarrow> int \<times> rng" where
  "randomize_bits i bit_num int_byte g =
     (if i < bit_num then
        (case randint 0 1 g of
           (r, g1) \<Rightarrow>
             randomize_bits (Suc i) bit_num
               ((int_byte AND (255 - push_bit i 1)) + push_bit i r) g1)
      else (int_byte, g))"
  by pat_completeness auto
termination
  by (relation "measure (\<lambda>(i, bit_num, b, g). bit_num - i)") auto

declare randomize_bits.simps [simp del]

fun random_bytes :: "nat \<Rightarrow> rng \<Rightarrow> (error + string) \<times> rng" where
  "random_bytes 0 g = (Inr [], g)"
| "random_bytes (Suc k) g =
     (case randint 0 255 g of
        (r, g1) \<Rightarrow>
          (case chr r of
             Inl e \<Rightarrow> (Inl e, g1)
           | Inr c \<Rightarrow>
               (case random_bytes k g1 of
                  (Inl e, g2) \<Rightarrow> (Inl e, g2)
                | (Inr cs, g2) \<Rightarrow> (Inr (c # cs), g2))))"

definition generate_close_id :: "Id \<Rightarrow> int \<Rightarrow> rng \<Rightarrow> (error + Id) \<times> rng" where
  "generate_close_id self log_dist g =
     (if \<not> (log_dist < ID_SIZE_BITS) then (Inl AssertionError, g)
      else if log_dist < 0 then (Inr self, g)
      else
        (let byte_num = log_dist div BITS_PER_BYTE;
             bit_num = log_dist mod BITS_PER_BYTE;
             byte_index = int (length (Id_bin_id self)) - byte_num - 1
         in case str_index (Id_bin_id self) byte_index of
              Inl e \<Rightarrow> (Inl e, g)
            | Inr c \<Rightarrow>
                (case randomize_bits 0 (nat bit_num) (ord c XOR push_bit (nat bit_num) 1) g of
                   (int_byte, g1) \<Rightarrow>
                     (case chr int_byte of
                        Inl e \<Rightarrow> (Inl e, g1)
                      | Inr id_byte \<Rightarrow>
                          (case random_bytes (nat (ID_SIZE_BYTES - (byte_index + 1))) g1 of
                             (Inl e, g2) \<Rightarrow> (Inl e, g2)
                           | (Inr end_bytes, g2) \<Rightarrow>
                               (Id_init (PyStr (str_slice_to (Id_bin_id self) byte_index
                                                  @ [id_byte] @ end_bytes)), g2))))))"

text \<open>\<open>RandomId.__init__\<close>: twenty random bytes handed to \<open>Id.__init__\<close>.\<close>

definition RandomId_init :: "rng \<Rightarrow> (error + Id) \<times> rng" where
  "RandomId_init g =
     (case random_bytes (nat ID_SIZE_BYTES) g of
        (Inl e, g1) \<Rightarrow> (Inl e, g1)
      | (Inr random_str, g1) \<Rightarrow> (Id_init (PyStr random_str), g1))"

subsection \<open>Notions used to state the properties\<close>

text \<open>The object that \<open>Id.__init__\<close> leaves for a 20-byte \<open>str\<close>: no cache is filled.\<close>

definition id_of_bytes :: "string \<Rightarrow> Id" where
  "id_of_bytes s = \<lparr>p_bin_id = s, p_bin = s, p_hex = None, p_int = None\<rparr>"

text \<open>The all-zero identifier, and the identifiers that differ from it in the last byte only.\<close>

definition zero_id :: Id where
  "zero_id = id_of_bytes (replicate 20 (CHR 0x00))"

definition last_byte_id :: "char \<Rightarrow> Id" where
  "last_byte_id c = id_of_bytes (replicate 19 (CHR 0x00) @ [c])"

text \<open>
  The object that \<open>Id.__init__\<close> leaves for a 40-character hexadecimal \<open>str\<close> \<open>h\<close> that
  decodes to \<open>b\<close>: the text is kept in the cache as it was given.
\<close>

definition id_of_hex :: "string \<Rightarrow> string \<Rightarrow> Id" where
  "id_of_hex h b = \<lparr>p_bin_id = b, p_bin = b, p_hex = Some h, p_int = None\<rparr>"

text \<open>The value of a byte string read as a big-endian number.\<close>

definition be_int :: "string \<Rightarrow> int" where
  "be_int s = foldl (\<lambda>acc c. 256 * acc + ord c) 0 s"

text \<open>
  The objects a program can hold: those a constructor call returned, and those after
  a read of the properties \<open>hex\<close> and \<open>int\<close>, which fill the caches.
\<close>

inductive Id_obj :: "Id \<Rightarrow> bool" where
  constructed: "Id_init x = Inr a \<Longrightarrow> Id_obj a"
| hex_read: "Id_obj a \<Longrightarrow> Id_obj (snd (Id_hex a))"
| int_read: "Id_obj a \<Longrightarrow> Id_obj (snd (Id_int a))"

text \<open>What the caches of an object hold, when they are filled.\<close>

definition Id_inv :: "Id \<Rightarrow> bool" where
  "Id_inv a \<longleftrightarrow>
     p_bin_id a = p_bin a \<and> p_bin a \<noteq> [] \<and>
     (\<forall>h. p_hex a = Some h \<longrightarrow> str_upper h = b16encode (p_bin a)) \<and>
     (\<forall>n. p_int a = Some n \<longrightarrow> n = be_int (p_bin a))"

text \<open>A generator whose raw draws are all 0, and one whose raw draws count 0, 1, 2, ...\<close>

definition zero_rng :: rng where
  "zero_rng = \<lparr>draws = (\<lambda>_. 0), cursor = 0\<rparr>"

definition counting_rng :: rng where
  "counting_rng = \<lparr>draws = (\<lambda>n. n), cursor = 0\<rparr>"

section \<open>Bytes and the bit scan\<close>

lemma ord_range: "0 \<le> ord c \<and> ord c < 256"
proof -
  have "ord c = int (of_char c)" by (simp add: ord_def of_nat_of_char)
  moreover have "(of_char c :: nat) < 256" by simp
  ultimately show ?thesis by linarith
qed

lemma ord_inject: "ord a = ord b \<longleftrightarrow> a = b"
  by (simp add: ord_def)

lemma int_xor_eq_0: "(x::int) XOR y = 0 \<Longrightarrow> x = y"
proof -
  assume "x XOR y = 0"
  then have "(x XOR y) XOR y = y" by simp
  then show "x = y" by (simp add: xor.assoc)
qed

lemma ord_xor_range: "0 \<le> ord a XOR ord b \<and> ord a XOR ord b < 256"
proof -
  have "ord a XOR ord b < 2 ^ 8"
    using ord_range [of a] ord_range [of b] by (intro XOR_upper) simp_all
  then show ?thesis using ord_range [of a] ord_range [of b] by simp
qed

lemma ord_xor_pos: "a \<noteq> b \<Longrightarrow> 0 < ord a XOR ord b"
proof -
  assume "a \<noteq> b"
  then have "ord a XOR ord b \<noteq> 0" using int_xor_eq_0 ord_inject by blast
  then show ?thesis using ord_xor_range [of a b] by linarith
qed

lemma bit_loop_bracket:
  "n \<le> 7 \<Longrightarrow> 2 ^ (7 - n) \<le> b \<Longrightarrow> b < 2 ^ (8 - n) \<Longrightarrow>
   first_different_bit_loop b i = Some (i + n)"
proof (induction n arbitrary: b i)
  case 0
  then have "b div 128 = 1" by simp
  then show ?case
    by (subst first_different_bit_loop.simps) (simp add: BITS_PER_BYTE_def drop_bit_eq_div)
next
  case (Suc n)
  have p: "(2::int) ^ (7 - n) = 2 * 2 ^ (7 - Suc n)" "(2::int) ^ (8 - n) = 2 * 2 ^ (8 - Suc n)"
    using Suc.prems(1) by (simp_all flip: power_Suc add: Suc_diff_Suc)
  have le: "(2::int) ^ (8 - Suc n) \<le> 2 ^ 7"
    by (rule power_increasing) simp_all
  have "(0::int) < 2 ^ (7 - Suc n)" by simp
  then have "0 \<le> b" using Suc.prems(2) by linarith
  moreover have "b < 128" using Suc.prems(3) le by simp
  ultimately have z: "b div 128 = 0" by simp
  have "first_different_bit_loop (b * 2) (i + 1) = Some (i + 1 + n)"
    using Suc.prems p by (intro Suc.IH) simp_all
  then show ?case
    using z by (subst first_different_bit_loop.simps) (simp add: BITS_PER_BYTE_def drop_bit_eq_div)
qed

lemma bracket_exists:
  "0 < (b::int) \<Longrightarrow> b < 256 \<Longrightarrow> \<exists>n\<le>7. 2 ^ (7 - n) \<le> b \<and> b < 2 ^ (8 - n)"
proof -
  assume a: "0 < b" "b < 256"
  then consider "128 \<le> b" | "64 \<le> b \<and> b < 128" | "32 \<le> b \<and> b < 64" | "16 \<le> b \<and> b < 32"
    | "8 \<le> b \<and> b < 16" | "4 \<le> b \<and> b < 8" | "2 \<le> b \<and> b < 4" | "b = 1" by linarith
  then show ?thesis
  proof cases
    case 1 then show ?thesis using a by (intro exI [of _ 0]) simp
  next
    case 2 then show ?thesis by (intro exI [of _ 1]) simp
  next
    case 3 then show ?thesis by (intro exI [of _ 2]) simp
  next
    case 4 then show ?thesis by (intro exI [of _ 3]) simp
  next
    case 5 then show ?thesis by (intro exI [of _ 4]) simp
  next
    case 6 then show ?thesis by (intro exI [of _ 5]) simp
  next
    case 7 then show ?thesis by (intro exI [of _ 6]) simp
  next
    case 8 then show ?thesis by (intro exI [of _ 7]) simp
  qed
qed

lemma fdb_from_same:
  "i < length s1 \<Longrightarrow> i < length s2 \<Longrightarrow> s1 ! i = s2 ! i \<Longrightarrow>
   first_different_byte_from i s1 s2 = first_different_byte_from (Suc i) s1 s2"
  by (subst first_different_byte_from.simps) simp

lemma fdb_from_diff:
  "i < length s1 \<Longrightarrow> i < length s2 \<Longrightarrow> s1 ! i \<noteq> s2 ! i \<Longrightarrow>
   first_different_byte_from i s1 s2 = Inr i"
  by (subst first_different_byte_from.simps) simp

lemma fdb_from_end:
  "\<not> (i < length s1 \<and> i < length s2) \<Longrightarrow> first_different_byte_from i s1 s2 = Inl IndexError"
  by (subst first_different_byte_from.simps) auto

lemma fdb_from_Inr:
  "first_different_byte_from i s1 s2 = Inr k \<Longrightarrow>
   i \<le> k \<and> k < length s1 \<and> k < length s2 \<and> s1 ! k \<noteq> s2 ! k \<and>
   (\<forall>j. i \<le> j \<and> j < k \<longrightarrow> s1 ! j = s2 ! j)"
proof (induction i s1 s2 rule: first_different_byte_from.induct)
  case (1 i str1 str2)
  consider (same) "i < length str1" "i < length str2" "str1 ! i = str2 ! i"
    | (diff) "i < length str1" "i < length str2" "str1 ! i \<noteq> str2 ! i"
    | (stop) "\<not> (i < length str1 \<and> i < length str2)" by blast
  then show ?case
  proof cases
    case same
    then have "first_different_byte_from (Suc i) str1 str2 = Inr k"
      using "1.prems" fdb_from_same by simp
    then have ih: "Suc i \<le> k \<and> k < length str1 \<and> k < length str2 \<and> str1 ! k \<noteq> str2 ! k \<and>
      (\<forall>j. Suc i \<le> j \<and> j < k \<longrightarrow> str1 ! j = str2 ! j)"
      using same by (intro "1.IH") simp_all
    have "str1 ! j = str2 ! j" if "i \<le> j" "j < k" for j
      using that ih same by (cases "j = i") auto
    then show ?thesis using ih by auto
  next
    case diff
    then have "k = i" using "1.prems" fdb_from_diff by simp
    then show ?thesis using diff by auto
  next
    case stop
    then show ?thesis using "1.prems" fdb_from_end by simp
  qed
qed

lemma fdb_from_Inl:
  "first_different_byte_from i s1 s2 = Inl e \<Longrightarrow> e = IndexError"
proof (induction i s1 s2 rule: first_different_byte_from.induct)
  case (1 i str1 str2)
  consider (same) "i < length str1" "i < length str2" "str1 ! i = str2 ! i"
    | (diff) "i < length str1" "i < length str2" "str1 ! i \<noteq> str2 ! i"
    | (stop) "\<not> (i < length str1 \<and> i < length str2)" by blast
  then show ?case
  proof cases
    case same
    then have "first_different_byte_from (Suc i) str1 str2 = Inl e"
      using "1.prems" fdb_from_same by simp
    then show ?thesis using same by (intro "1.IH") simp_all
  next
    case diff
    then show ?thesis using "1.prems" fdb_from_diff by simp
  next
    case stop
    then show ?thesis using "1.prems" fdb_from_end by simp
  qed
qed

lemma fdb_from_Inl_eq:
  "first_different_byte_from i s1 s2 = Inl e \<Longrightarrow> length s1 = length s2 \<Longrightarrow>
   i \<le> j \<Longrightarrow> j < length s1 \<Longrightarrow> s1 ! j = s2 ! j"
proof (induction i s1 s2 rule: first_different_byte_from.induct)
  case (1 i str1 str2)
  have c: "i < length str1" "i < length str2" using "1.prems" by auto
  have e: "str1 ! i = str2 ! i"
  proof (rule ccontr)
    assume "str1 ! i \<noteq> str2 ! i"
    then show False using "1.prems"(1) c fdb_from_diff by simp
  qed
  have r: "first_different_byte_from (Suc i) str1 str2 = Inl e"
    using "1.prems"(1) c e fdb_from_same by simp
  show ?case
  proof (cases "j = i")
    case True then show ?thesis using e by simp
  next
    case False
    have "\<not> str1 ! i \<noteq> str2 ! i" using e by simp
    from "1.IH" [OF c this r] False "1.prems" show ?thesis by simp
  qed
qed

lemma first_different_byte_equal:
  "length s1 = length s2 \<Longrightarrow> (\<exists>e. first_different_byte s1 s2 = Inl e) \<longleftrightarrow> s1 = s2"
proof
  assume l: "length s1 = length s2" and "\<exists>e. first_different_byte s1 s2 = Inl e"
  then obtain e where "first_different_byte_from 0 s1 s2 = Inl e"
    by (auto simp: first_different_byte_def)
  then have "\<forall>j<length s1. s1 ! j = s2 ! j" using fdb_from_Inl_eq l by blast
  then show "s1 = s2" using l by (simp add: list_eq_iff_nth_eq)
next
  assume "length s1 = length s2" and e: "s1 = s2"
  show "\<exists>e. first_different_byte s1 s2 = Inl e"
  proof (cases "first_different_byte s1 s2")
    case (Inl a) then show ?thesis by blast
  next
    case (Inr k)
    then show ?thesis using fdb_from_Inr [of 0 s1 s2 k] e by (simp add: first_different_byte_def)
  qed
qed

lemma first_different_bit_total:
  assumes "c1 \<noteq> c2"
  shows "\<exists>j\<le>7. first_different_bit c1 c2 = Some (Inr j) \<and>
           first_different_bit_loop (ord c1 XOR ord c2) 0 = Some j \<and>
           2 ^ (7 - j) \<le> ord c1 XOR ord c2 \<and> ord c1 XOR ord c2 < 2 ^ (8 - j)"
proof -
  obtain n where n: "n \<le> 7" "2 ^ (7 - n) \<le> ord c1 XOR ord c2" "ord c1 XOR ord c2 < 2 ^ (8 - n)"
    using bracket_exists [OF ord_xor_pos [OF assms]] ord_xor_range [of c1 c2] by blast
  have "first_different_bit_loop (ord c1 XOR ord c2) 0 = Some n"
    using bit_loop_bracket [OF n, of 0] by simp
  then show ?thesis using n assms by (auto simp: first_different_bit_def)
qed

lemma log_distance_equal:
  "Id_bin_id a = Id_bin_id b \<Longrightarrow> log_distance a b = Some (Inr (- 1))"
proof -
  assume e: "Id_bin_id a = Id_bin_id b"
  then obtain x where "first_different_byte (Id_bin_id a) (Id_bin_id b) = Inl x"
    using first_different_byte_equal [of "Id_bin_id a" "Id_bin_id b"] by auto
  moreover from this have "x = IndexError"
    using fdb_from_Inl by (simp add: first_different_byte_def)
  ultimately show ?thesis by (simp add: log_distance_def)
qed

lemma log_distance_found:
  assumes "first_different_byte (Id_bin_id a) (Id_bin_id b) = Inr k"
  shows "\<exists>j\<le>7. log_distance a b = Some (Inr ((ID_SIZE_BYTES - int k - 1) * 8 + (7 - int j))) \<and>
           2 ^ (7 - j) \<le> ord (Id_bin_id a ! k) XOR ord (Id_bin_id b ! k) \<and>
           ord (Id_bin_id a ! k) XOR ord (Id_bin_id b ! k) < 2 ^ (8 - j)"
proof -
  have "Id_bin_id a ! k \<noteq> Id_bin_id b ! k"
    using fdb_from_Inr [of 0 _ _ k] assms by (simp add: first_different_byte_def)
  then obtain j where j: "j \<le> 7"
      "first_different_bit (Id_bin_id a ! k) (Id_bin_id b ! k) = Some (Inr j)"
      "2 ^ (7 - j) \<le> ord (Id_bin_id a ! k) XOR ord (Id_bin_id b ! k)"
      "ord (Id_bin_id a ! k) XOR ord (Id_bin_id b ! k) < 2 ^ (8 - j)"
    using first_different_bit_total by blast
  have "log_distance a b = Some (Inr ((ID_SIZE_BYTES - int k - 1) * 8 + (7 - int j)))"
    using assms j(2) by (simp add: log_distance_def BITS_PER_BYTE_def)
  then show ?thesis using j by blast
qed

lemma log_distance_total: "\<exists>n. log_distance a b = Some (Inr n) \<and> n \<le> 159"
proof (cases "first_different_byte (Id_bin_id a) (Id_bin_id b)")
  case (Inl e)
  then have "e = IndexError" using fdb_from_Inl by (simp add: first_different_byte_def)
  then show ?thesis using Inl by (simp add: log_distance_def)
next
  case (Inr k)
  then obtain j where "log_distance a b = Some (Inr ((ID_SIZE_BYTES - int k - 1) * 8 + (7 - int j)))"
    using log_distance_found by blast
  then show ?thesis by (simp add: ID_SIZE_BYTES_def)
qed

lemma int_mod_2_of_bool: "int k mod 2 = of_bool (odd k)"
  by (auto simp: of_bool_def elim!: evenE oddE)

lemma set_random_bit:
  assumes "i < 8" and "\<forall>n. bit b n \<longrightarrow> n < 8"
  shows "bit ((b AND (255 - push_bit i 1)) + push_bit i (int k mod 2)) n
           \<longleftrightarrow> (if n = i then odd k else bit b n)"
proof -
  have "(255::int) = mask 8" by (simp add: mask_eq_exp_minus_1)
  then have m: "(255::int) - push_bit i 1 = unset_bit i (mask 8)"
    using assms(1) by (simp only: unset_bit_eq bit_mask_iff push_bit_eq_mult) simp
  have a: "b AND unset_bit i (mask 8) = unset_bit i b"
    using assms(2) by (intro bit_eqI) (auto simp: bit_and_iff bit_unset_bit_iff bit_mask_iff)
  have d: "unset_bit i b AND push_bit i (of_bool (odd k)) = 0"
    by (intro bit_eqI) (auto simp: bit_and_iff bit_unset_bit_iff bit_push_bit_iff bit_of_bool_iff)
  have "(b AND (255 - push_bit i 1)) + push_bit i (int k mod 2)
          = unset_bit i b OR push_bit i (of_bool (odd k))"
    unfolding m a int_mod_2_of_bool by (rule disjunctive_add_eq_or [OF d])
  then show ?thesis
    by (auto simp: bit_or_iff bit_unset_bit_iff bit_push_bit_iff bit_of_bool_iff)
qed

lemma randint_0_1: "randint 0 1 g = (int (draws g (cursor g)) mod 2, g\<lparr>cursor := Suc (cursor g)\<rparr>)"
  by (simp add: randint_def)

lemma randint_0_255:
  "randint 0 255 g = (int (draws g (cursor g)) mod 256, g\<lparr>cursor := Suc (cursor g)\<rparr>)"
  by (simp add: randint_def)

lemma randomize_bits_spec:
  "bit_num \<le> 8 \<Longrightarrow> \<forall>n. bit b n \<longrightarrow> n < 8 \<Longrightarrow>
   \<exists>v g'. randomize_bits i bit_num b g = (v, g') \<and> draws g' = draws g \<and>
     cursor g' = cursor g + (bit_num - i) \<and>
     (\<forall>n. bit v n \<longleftrightarrow>
        (if i \<le> n \<and> n < bit_num then odd (draws g (cursor g + (n - i))) else bit b n))"
proof (induction i bit_num b g rule: randomize_bits.induct)
  case (1 i bit_num int_byte g)
  show ?case
  proof (cases "i < bit_num")
    case False
    then have "randomize_bits i bit_num int_byte g = (int_byte, g)"
      by (subst randomize_bits.simps) simp
    then show ?thesis using False by auto
  next
    case True
    define r where "r = int (draws g (cursor g)) mod 2"
    define g1 where "g1 = g\<lparr>cursor := Suc (cursor g)\<rparr>"
    define b1 where "b1 = (int_byte AND (255 - push_bit i 1)) + push_bit i r"
    have g1: "draws g1 = draws g" "cursor g1 = Suc (cursor g)" by (simp_all add: g1_def)
    have rg: "(r, g1) = randint 0 1 g" by (simp add: randint_0_1 r_def g1_def)
    have i8: "i < 8" using True "1.prems"(1) by simp
    have bits: "bit b1 n \<longleftrightarrow> (if n = i then odd (draws g (cursor g)) else bit int_byte n)" for n
      unfolding b1_def r_def by (rule set_random_bit [OF i8 "1.prems"(2)])
    have small: "\<forall>n. bit b1 n \<longrightarrow> n < 8"
      using bits i8 "1.prems"(2) by (auto split: if_splits)
    have unf: "randomize_bits i bit_num int_byte g = randomize_bits (Suc i) bit_num b1 g1"
      using True by (subst randomize_bits.simps) (simp add: randint_0_1 b1_def r_def g1_def)
    have "\<exists>v g'. randomize_bits (Suc i) bit_num b1 g1 = (v, g') \<and> draws g' = draws g1 \<and>
       cursor g' = cursor g1 + (bit_num - Suc i) \<and>
       (\<forall>n. bit v n \<longleftrightarrow>
         (if Suc i \<le> n \<and> n < bit_num then odd (draws g1 (cursor g1 + (n - Suc i))) else bit b1 n))"
      unfolding b1_def by (rule "1.IH" [OF True rg "1.prems"(1) small [unfolded b1_def]])
    then obtain v g' where ih: "randomize_bits (Suc i) bit_num b1 g1 = (v, g')"
      "draws g' = draws g1" "cursor g' = cursor g1 + (bit_num - Suc i)"
      and ihb: "\<And>n. bit v n \<longleftrightarrow>
        (if Suc i \<le> n \<and> n < bit_num then odd (draws g1 (cursor g1 + (n - Suc i))) else bit b1 n)"
      by blast
    have "bit v n \<longleftrightarrow>
        (if i \<le> n \<and> n < bit_num then odd (draws g (cursor g + (n - i))) else bit int_byte n)" for n
    proof (cases "n = i")
      case e: True
      have "bit v n = bit b1 n" using ihb [of n] e by simp
      then show ?thesis using bits [of n] e \<open>i < bit_num\<close> by simp
    next
      case False
      have e: "(Suc i \<le> n \<and> n < bit_num) = (i \<le> n \<and> n < bit_num)"
        using False by auto
      show ?thesis
      proof (cases "Suc i \<le> n \<and> n < bit_num")
        case T: True
        then have c: "cursor g1 + (n - Suc i) = cursor g + (n - i)" unfolding g1 by linarith
        have "bit v n = odd (draws g1 (cursor g1 + (n - Suc i)))"
          unfolding ihb [of n] by (rule if_P [OF T])
        then have "bit v n = odd (draws g (cursor g + (n - i)))" by (simp only: c g1(1))
        then show ?thesis using T e by auto
      next
        case F: False
        have "bit v n = bit b1 n" unfolding ihb [of n] by (rule if_not_P [OF F])
        also have "\<dots> = bit int_byte n" using bits [of n] False by simp
        finally show ?thesis using F e by auto
      qed
    qed
    moreover have "cursor g' = cursor g + (bit_num - i)" using ih(3) g1 True by simp
    ultimately show ?thesis using unf ih(1,2) g1 by simp
  qed
qed

lemma chr_byte: "chr (int k mod 256) = Inr (char_of (k mod 256))"
proof -
  have "int k mod 256 = int (k mod 256)" by (simp add: zmod_int)
  moreover have "char_of (int (k mod 256)) = (char_of (k mod 256) :: char)" by simp
  ultimately show ?thesis by (simp add: chr_def del: char_of_mod_256)
qed

lemma random_bytes_spec:
  "\<exists>e g'. random_bytes k g = (Inr e, g') \<and> length e = k \<and> draws g' = draws g \<and>
     cursor g' = cursor g + k \<and>
     (\<forall>m<k. e ! m = char_of (draws g (cursor g + m) mod 256))"
proof (induction k arbitrary: g)
  case 0
  show ?case by simp
next
  case (Suc k)
  define g1 where "g1 = g\<lparr>cursor := Suc (cursor g)\<rparr>"
  have g1: "draws g1 = draws g" "cursor g1 = Suc (cursor g)" by (simp_all add: g1_def)
  obtain e g' where ih: "random_bytes k g1 = (Inr e, g')" "length e = k" "draws g' = draws g1"
    "cursor g' = cursor g1 + k" "\<forall>m<k. e ! m = char_of (draws g1 (cursor g1 + m) mod 256)"
    using Suc.IH [of g1] by blast
  let ?c = "char_of (draws g (cursor g) mod 256) :: char"
  have r: "random_bytes (Suc k) g = (Inr (?c # e), g')"
    using ih(1) by (simp add: randint_0_255 chr_byte g1_def del: char_of_mod_256)
  have "(?c # e) ! m = char_of (draws g (cursor g + m) mod 256)" if "m < Suc k" for m
  proof (cases m)
    case 0 then show ?thesis by simp
  next
    case (Suc m')
    then have "m' < k" using that by simp
    then have "e ! m' = char_of (draws g1 (cursor g1 + m') mod 256)" using ih(5) by blast
    then show ?thesis using Suc g1 by simp
  qed
  then show ?case using r ih(2,3,4) g1 by auto
qed

lemma fdb_from_unique:
  "i \<le> k \<Longrightarrow> k < length s1 \<Longrightarrow> k < length s2 \<Longrightarrow> s1 ! k \<noteq> s2 ! k \<Longrightarrow>
   (\<forall>j. i \<le> j \<and> j < k \<longrightarrow> s1 ! j = s2 ! j) \<Longrightarrow>
   first_different_byte_from i s1 s2 = Inr k"
proof (induction "k - i" arbitrary: i)
  case 0
  then have "i = k" by simp
  then show ?case using "0.prems" fdb_from_diff by simp
next
  case (Suc n)
  then have lt: "i < k" by simp
  then have "s1 ! i = s2 ! i" using Suc.prems by simp
  then have "first_different_byte_from i s1 s2 = first_different_byte_from (Suc i) s1 s2"
    using lt Suc.prems by (intro fdb_from_same) simp_all
  moreover have "first_different_byte_from (Suc i) s1 s2 = Inr k"
    using Suc.hyps Suc.prems lt by (intro Suc.hyps(1)) auto
  ultimately show ?case by simp
qed

lemma small_bits_range:
  assumes "\<forall>n. bit (v::int) n \<longrightarrow> n < m"
  shows "0 \<le> v \<and> v < 2 ^ m"
proof -
  have "take_bit m v = v"
    using assms by (intro bit_eqI) (auto simp: bit_take_bit_iff)
  then show ?thesis
    using take_bit_nonnegative [of m v] take_bit_int_less_exp [of m v] by simp
qed

lemma range_small_bits:
  assumes "0 \<le> (v::int)" "v < 2 ^ m" "bit v n"
  shows "n < m"
proof -
  have "take_bit m v = v" using assms(1,2) by (simp add: take_bit_int_eq_self)
  then have "bit (take_bit m v) n" using assms(3) by simp
  then show ?thesis by (simp add: bit_take_bit_iff)
qed

lemma ord_bit_small: "bit (ord c) n \<Longrightarrow> n < 8"
  using range_small_bits [of "ord c" 8 n] ord_range [of c] by simp

lemma top_bit_bounds:
  assumes "bit (x::int) m" and "\<forall>n>m. \<not> bit x n"
  shows "2 ^ m \<le> x \<and> x < 2 ^ (m + 1)"
proof -
  have "\<forall>n. bit x n \<longrightarrow> n < m + 1" using assms(2) by (metis Suc_eq_plus1 not_less_eq)
  then have r: "0 \<le> x" "x < 2 ^ (m + 1)" using small_bits_range by blast+
  have "2 ^ m \<le> x"
  proof (rule ccontr)
    assume "\<not> 2 ^ m \<le> x"
    then have "x div 2 ^ m = 0" using r(1) by simp
    then show False using assms(1) by (simp add: bit_iff_odd)
  qed
  then show ?thesis using r by simp
qed

lemma bracket_unique:
  assumes "2 ^ a \<le> (x::int)" "x < 2 ^ (a + 1)" "2 ^ b \<le> x" "x < 2 ^ (b + 1)"
  shows "a = b"
proof -
  have "(2::int) ^ a < 2 ^ (b + 1)" using assms(1,4) by linarith
  then have "a < b + 1" by (rule power_less_imp_less_exp [rotated]) simp
  moreover have "(2::int) ^ b < 2 ^ (a + 1)" using assms(2,3) by linarith
  then have "b < a + 1" by (rule power_less_imp_less_exp [rotated]) simp
  ultimately show ?thesis by simp
qed

lemma Id_init_bytes:
  "int (length s) = ID_SIZE_BYTES \<Longrightarrow> Id_init (PyStr s) = Inr (id_of_bytes s)"
  by (auto simp: Id_init_def init_finish_def id_of_bytes_def ID_SIZE_BYTES_def)

lemma generate_close_id_run:
  assumes len: "int (length (Id_bin_id self)) = ID_SIZE_BYTES"
    and d: "0 \<le> d" "d < ID_SIZE_BITS"
    and rb: "randomize_bits 0 (nat (d mod 8))
               (ord (Id_bin_id self ! nat (19 - d div 8)) XOR push_bit (nat (d mod 8)) 1) g = (v, g1)"
    and v: "0 \<le> v" "v < 256"
    and rs: "random_bytes (nat (d div 8)) g1 = (Inr e, g2)"
  shows "generate_close_id self d g
           = (Id_init (PyStr (take (nat (19 - d div 8)) (Id_bin_id self) @ [char_of v] @ e)), g2)"
proof -
  have r: "0 \<le> d div 8" "d div 8 \<le> 19"
    using d by (simp_all add: ID_SIZE_BITS_def ID_SIZE_BYTES_def BITS_PER_BYTE_def)
  have l: "length (Id_bin_id self) = 20" using len by (simp add: ID_SIZE_BYTES_def)
  have e1: "str_index (Id_bin_id self) (19 - d div 8) = Inr (Id_bin_id self ! nat (19 - d div 8))"
    using r l by (simp add: str_index_def)
  have e3: "chr v = Inr (char_of v)" using v by (simp add: chr_def)
  have e5: "str_slice_to (Id_bin_id self) (19 - d div 8) = take (nat (19 - d div 8)) (Id_bin_id self)"
    using r by (simp add: str_slice_to_def)
  have e4: "nat (20 - (19 - d div 8 + 1)) = nat (d div 8)" by simp
  show ?thesis
    using d rb rs
    by (simp add: generate_close_id_def ID_SIZE_BITS_def ID_SIZE_BYTES_def BITS_PER_BYTE_def l
        e1 e3 e4 e5 Let_def)
qed

lemma lowest_scan_less:
  "j < n \<Longrightarrow> j < length l \<Longrightarrow> l ! j < ld \<Longrightarrow>
   lowest_scan j n l li ld = lowest_scan (Suc j) n l (Some j) (l ! j)"
  by (subst lowest_scan.simps) simp

lemma lowest_scan_ge:
  "j < n \<Longrightarrow> j < length l \<Longrightarrow> \<not> l ! j < ld \<Longrightarrow>
   lowest_scan j n l li ld = lowest_scan (Suc j) n l li ld"
  by (subst lowest_scan.simps) simp

lemma lowest_scan_done: "\<not> j < n \<Longrightarrow> lowest_scan j n l li ld = Inr li"
  by (subst lowest_scan.simps) simp

lemma lowest_scan_inv:
  assumes "n \<le> length l" "j \<le> n"
    and "(li = None \<and> ld = M \<and> (\<forall>i<j. M \<le> l ! i)) \<or>
         (\<exists>m. li = Some m \<and> m < j \<and> ld = l ! m \<and> ld < M \<and>
              (\<forall>i<j. l ! m \<le> l ! i) \<and> (\<forall>i<m. l ! m < l ! i))"
  shows "\<exists>li'. lowest_scan j n l li ld = Inr li' \<and>
           ((li' = None \<and> (\<forall>i<n. M \<le> l ! i)) \<or>
            (\<exists>m. li' = Some m \<and> m < n \<and> l ! m < M \<and>
                 (\<forall>i<n. l ! m \<le> l ! i) \<and> (\<forall>i<m. l ! m < l ! i)))"
  using assms
proof (induction "n - j" arbitrary: j li ld)
  case 0
  then have "j = n" by simp
  then show ?case using "0.prems"(3) lowest_scan_done [of j n l li ld] by auto
next
  case (Suc k)
  then have jn: "j < n" "j < length l" by simp_all
  have leM: "ld \<le> M" and lb: "\<forall>i<j. ld \<le> l ! i"
    using Suc.prems(3) by auto
  show ?case
  proof (cases "l ! j < ld")
    case True
    have lt: "\<forall>i<j. l ! j < l ! i" using lb True by fastforce
    then have "\<forall>i<Suc j. l ! j \<le> l ! i" by (metis less_Suc_eq order_less_imp_le order_refl)
    then have inv: "(Some j = None \<and> l ! j = M \<and> (\<forall>i<Suc j. M \<le> l ! i)) \<or>
         (\<exists>m. Some j = Some m \<and> m < Suc j \<and> l ! j = l ! m \<and> l ! j < M \<and>
              (\<forall>i<Suc j. l ! m \<le> l ! i) \<and> (\<forall>i<m. l ! m < l ! i))"
      using lt True leM by auto
    have "k = n - Suc j" using Suc.hyps(2) by simp
    from Suc.hyps(1) [OF this Suc.prems(1) _ inv] jn
    show ?thesis using lowest_scan_less [OF jn True, of li] by simp
  next
    case False
    have inv: "(li = None \<and> ld = M \<and> (\<forall>i<Suc j. M \<le> l ! i)) \<or>
         (\<exists>m. li = Some m \<and> m < Suc j \<and> ld = l ! m \<and> ld < M \<and>
              (\<forall>i<Suc j. l ! m \<le> l ! i) \<and> (\<forall>i<m. l ! m < l ! i))"
      using Suc.prems(3)
    proof
      assume a: "li = None \<and> ld = M \<and> (\<forall>i<j. M \<le> l ! i)"
      then have "\<forall>i<Suc j. M \<le> l ! i" using False by (auto simp: less_Suc_eq)
      then show ?thesis using a by blast
    next
      assume "\<exists>m. li = Some m \<and> m < j \<and> ld = l ! m \<and> ld < M \<and>
              (\<forall>i<j. l ! m \<le> l ! i) \<and> (\<forall>i<m. l ! m < l ! i)"
      then obtain m where m: "li = Some m" "m < j" "ld = l ! m" "ld < M"
        "\<forall>i<j. l ! m \<le> l ! i" "\<forall>i<m. l ! m < l ! i" by blast
      then have "\<forall>i<Suc j. l ! m \<le> l ! i" using False by (auto simp: less_Suc_eq)
      then show ?thesis using m by auto
    qed
    have "k = n - Suc j" using Suc.hyps(2) by simp
    from Suc.hyps(1) [OF this Suc.prems(1) _ inv] jn
    show ?thesis using lowest_scan_ge [OF jn False, of li] by simp
  qed
qed

lemma lowest_scan_leftmost_min:
  assumes "l \<noteq> []" and "\<forall>i<length l. l ! i < M"
  shows "\<exists>m<length l. lowest_scan 0 (length l) l None M = Inr (Some m) \<and>
           (\<forall>i<length l. l ! m \<le> l ! i) \<and> (\<forall>i<m. l ! m < l ! i)"
proof -
  have "(None = None \<and> M = M \<and> (\<forall>i<0. M \<le> l ! i)) \<or>
         (\<exists>m. None = Some m \<and> m < 0 \<and> M = l ! m \<and> M < M \<and>
              (\<forall>i<0. l ! m \<le> l ! i) \<and> (\<forall>i<m. l ! m < l ! i))" by simp
  from lowest_scan_inv [OF order_refl _ this]
  obtain li' where li: "lowest_scan 0 (length l) l None M = Inr li'"
    "(li' = None \<and> (\<forall>i<length l. M \<le> l ! i)) \<or>
     (\<exists>m. li' = Some m \<and> m < length l \<and> l ! m < M \<and>
          (\<forall>i<length l. l ! m \<le> l ! i) \<and> (\<forall>i<m. l ! m < l ! i))" by blast
  have "0 < length l" using assms(1) by simp
  then have "\<not> (\<forall>i<length l. M \<le> l ! i)" using assms(2) by fastforce
  then show ?thesis using li by auto
qed

lemma del_at_split:
  "m < length xs \<Longrightarrow> xs = take m xs @ xs ! m # drop (Suc m) xs"
  by (rule id_take_nth_drop)

lemma length_del_at: "m < length xs \<Longrightarrow> length (del_at m xs) = length xs - 1"
  by (simp add: del_at_def)

lemma map_del_at: "map f (del_at m xs) = del_at m (map f xs)"
  by (simp add: del_at_def take_map drop_map)

lemma mset_del_at: "m < length xs \<Longrightarrow> mset xs = add_mset (xs ! m) (mset (del_at m xs))"
proof -
  assume "m < length xs"
  then have "mset xs = mset (take m xs @ xs ! m # drop (Suc m) xs)"
    using del_at_split by metis
  then show ?thesis by (simp add: del_at_def)
qed

lemma set_del_at: "set (del_at m xs) \<subseteq> set xs"
  unfolding del_at_def using set_take_subset [of m xs] set_drop_subset [of "Suc m" xs] by auto

lemma filter_del_at:
  assumes "m < length xs" and "\<forall>i<m. \<not> (P (xs ! i) \<and> P (xs ! m))"
  shows "filter P xs = (if P (xs ! m) then xs ! m # filter P (del_at m xs) else filter P (del_at m xs))"
proof -
  have s: "filter P xs = filter P (take m xs) @ filter P [xs ! m] @ filter P (drop (Suc m) xs)"
    using del_at_split [OF assms(1)] by (metis append_Cons append_Nil filter_append)
  show ?thesis
  proof (cases "P (xs ! m)")
    case True
    have "filter P (take m xs) = []"
      using assms True by (auto simp: filter_empty_conv in_set_conv_nth)
    then show ?thesis using s True by (simp add: del_at_def)
  next
    case False
    then show ?thesis using s by (simp add: del_at_def)
  qed
qed

lemma select_loop_spec:
  assumes "c < length h" "r < length h" "c \<noteq> r" "k = length (h ! c)"
    and "lds = map f (h ! c)" and "\<forall>x\<in>set (h ! c). f x < ID_SIZE_BITS + 1"
  shows "\<exists>h' ys. select_loop k c r lds h = (Inr (), h') \<and> length h' = length h \<and>
           (\<forall>a. a \<noteq> c \<and> a \<noteq> r \<longrightarrow> h' ! a = h ! a) \<and>
           h' ! r = h ! r @ ys \<and> sorted (map f ys) \<and> mset ys = mset (h ! c) \<and>
           (\<forall>v. filter (\<lambda>x. f x = v) ys = filter (\<lambda>x. f x = v) (h ! c))"
  using assms
proof (induction k arbitrary: h lds)
  case 0
  then have "h ! c = []" by simp
  then show ?case by (intro exI [of _ h] exI [of _ "[]"]) simp
next
  case (Suc k)
  define xs where "xs = h ! c"
  have lx: "length xs = Suc k" and ll: "length lds = length xs" and lds: "lds = map f xs"
    using Suc.prems by (simp_all add: xs_def)
  have "lds \<noteq> []" using lx ll by auto
  moreover have "\<forall>i<length lds. lds ! i < ID_SIZE_BITS + 1"
    using Suc.prems(6) lds by (simp add: xs_def)
  ultimately obtain m where m: "m < length lds"
      "lowest_scan 0 (length lds) lds None (ID_SIZE_BITS + 1) = Inr (Some m)"
      "\<forall>i<length lds. lds ! m \<le> lds ! i" "\<forall>i<m. lds ! m < lds ! i"
    using lowest_scan_leftmost_min [of lds "ID_SIZE_BITS + 1"] by blast
  have mx: "m < length xs" using m(1) ll by simp
  define x where "x = xs ! m"
  define h1 where "h1 = h[r := (h ! r) @ [x]]"
  define h2 where "h2 = h1[c := del_at m (h1 ! c)]"
  have h1c: "h1 ! c = xs" using Suc.prems(3) by (simp add: h1_def xs_def)
  have h2c: "h2 ! c = del_at m xs" using Suc.prems(1) by (simp add: h2_def h1_def h1c [unfolded h1_def])
  have h2r: "h2 ! r = h ! r @ [x]" using Suc.prems(2,3) by (simp add: h2_def h1_def)
  have h2len: "length h2 = length h" by (simp add: h2_def h1_def)
  have h2other: "h2 ! a = h ! a" if "a \<noteq> c" "a \<noteq> r" for a
    using that by (simp add: h2_def h1_def)
  have step: "select_loop (Suc k) c r lds h = select_loop k c r (del_at m lds) h2"
    using m(1,2) mx ll by (simp add: xs_def [symmetric] h1_def h2_def x_def Let_def)
  have fmin: "f x \<le> f (xs ! i)" if "i < length xs" for i
    using m(3) that ll by (simp add: lds x_def mx)
  have fleft: "f x < f (xs ! i)" if "i < m" for i
    using m(4) that mx by (simp add: lds x_def)
  have "\<exists>h' ys. select_loop k c r (del_at m lds) h2 = (Inr (), h') \<and> length h' = length h2 \<and>
           (\<forall>a. a \<noteq> c \<and> a \<noteq> r \<longrightarrow> h' ! a = h2 ! a) \<and>
           h' ! r = h2 ! r @ ys \<and> sorted (map f ys) \<and> mset ys = mset (h2 ! c) \<and>
           (\<forall>v. filter (\<lambda>x. f x = v) ys = filter (\<lambda>x. f x = v) (h2 ! c))"
  proof (rule Suc.IH)
    show "c < length h2" "r < length h2" "c \<noteq> r" using Suc.prems(1-3) h2len by simp_all
    show "k = length (h2 ! c)" using lx mx by (simp add: h2c length_del_at)
    show "del_at m lds = map f (h2 ! c)" by (simp add: h2c lds map_del_at)
    show "\<forall>x\<in>set (h2 ! c). f x < ID_SIZE_BITS + 1"
      using Suc.prems(6) set_del_at [of m xs] by (auto simp: h2c xs_def)
  qed
  then obtain h' ys where ih: "select_loop k c r (del_at m lds) h2 = (Inr (), h')"
      "length h' = length h2" "\<forall>a. a \<noteq> c \<and> a \<noteq> r \<longrightarrow> h' ! a = h2 ! a"
      "h' ! r = h2 ! r @ ys" "sorted (map f ys)" "mset ys = mset (h2 ! c)"
      "\<forall>v. filter (\<lambda>x. f x = v) ys = filter (\<lambda>x. f x = v) (h2 ! c)"
    by blast
  have sub: "set ys \<subseteq> set xs"
    using ih(6) set_del_at [of m xs] by (metis h2c set_mset_mset)
  have sorted: "sorted (map f (x # ys))"
  proof -
    have "f x \<le> f y" if "y \<in> set ys" for y
    proof -
      from that sub have "y \<in> set xs" by blast
      then obtain i where "i < length xs" "y = xs ! i"
        by (auto simp: in_set_conv_nth)
      then show ?thesis using fmin by simp
    qed
    then show ?thesis using ih(5) by auto
  qed
  have ms: "mset (x # ys) = mset xs"
    using ih(6) mset_del_at [OF mx] by (simp add: h2c x_def)
  have fl: "filter (\<lambda>y. f y = v) (x # ys) = filter (\<lambda>y. f y = v) xs" for v
  proof -
    have "\<not> (f (xs ! i) = v \<and> f (xs ! m) = v)" if "i < m" for i
      using fleft [OF that, unfolded x_def] by linarith
    then have "\<forall>i<m. \<not> (f (xs ! i) = v \<and> f (xs ! m) = v)" by blast
    from filter_del_at [OF mx, of "\<lambda>y. f y = v", OF this]
    show ?thesis using ih(7) by (simp add: h2c x_def)
  qed
  show ?case
  proof (intro exI [of _ h'] exI [of _ "x # ys"] conjI allI impI)
    show "select_loop (Suc k) c r lds h = (Inr (), h')" using step ih(1) by simp
    show "length h' = length h" using ih(2) h2len by simp
    show "h' ! a = h ! a" if "a \<noteq> c \<and> a \<noteq> r" for a using that ih(3) h2other by simp
    show "h' ! r = h ! r @ x # ys" using ih(4) h2r by simp
    show "sorted (map f (x # ys))" by (rule sorted)
    show "mset (x # ys) = mset (h ! c)" using ms by (simp add: xs_def)
    show "filter (\<lambda>x. f x = v) (x # ys) = filter (\<lambda>x. f x = v) (h ! c)" for v
      using fl [of v] by (simp add: xs_def)
  qed
qed

lemma log_distances_map:
  "(\<And>x. log_distance self x = Some (Inr (f x))) \<Longrightarrow>
   log_distances self xs = Some (Inr (map f xs))"
  by (induction xs) simp_all

lemma order_closest_spec:
  assumes "id_list < length h"
  shows "\<exists>h' ds. order_closest self id_list h = Some (Inr (Suc (length h)), h') \<and>
           length h' = length h + 2 \<and> (\<forall>a<length h. h' ! a = h ! a) \<and>
           log_distances self (h' ! Suc (length h)) = Some (Inr ds) \<and> sorted ds \<and>
           mset (h' ! Suc (length h)) = mset (h ! id_list) \<and>
           (\<forall>k. filter (\<lambda>x. log_distance self x = Some (Inr k)) (h' ! Suc (length h))
                = filter (\<lambda>x. log_distance self x = Some (Inr k)) (h ! id_list))"
proof -
  have "\<forall>x. \<exists>n. log_distance self x = Some (Inr n) \<and> n \<le> 159"
    using log_distance_total by blast
  then obtain f where f: "\<And>x. log_distance self x = Some (Inr (f x))" "\<And>x. f x \<le> 159"
    by metis
  have keyeq: "(\<lambda>x. log_distance self x = Some (Inr k)) = (\<lambda>x. f x = k)" for k
    by (simp add: f(1))
  define xs where "xs = h ! id_list"
  define c where "c = length h"
  define r where "r = Suc (length h)"
  define h2 where "h2 = (h @ [xs]) @ [[]]"
  have h2: "length h2 = length h + 2" "h2 ! c = xs" "h2 ! r = []" "h2 ! id_list = xs"
    "\<And>a. a < length h \<Longrightarrow> h2 ! a = h ! a"
    using assms by (simp_all add: h2_def c_def r_def nth_append xs_def)
  have "\<exists>h' ys. select_loop (length xs) c r (map f xs) h2 = (Inr (), h') \<and> length h' = length h2 \<and>
           (\<forall>a. a \<noteq> c \<and> a \<noteq> r \<longrightarrow> h' ! a = h2 ! a) \<and>
           h' ! r = h2 ! r @ ys \<and> sorted (map f ys) \<and> mset ys = mset (h2 ! c) \<and>
           (\<forall>v. filter (\<lambda>x. f x = v) ys = filter (\<lambda>x. f x = v) (h2 ! c))"
  proof (rule select_loop_spec)
    show "c < length h2" "r < length h2" "c \<noteq> r" using h2(1) by (simp_all add: c_def r_def)
    show "length xs = length (h2 ! c)" "map f xs = map f (h2 ! c)" by (simp_all add: h2(2))
    show "\<forall>x\<in>set (h2 ! c). f x < ID_SIZE_BITS + 1"
    proof
      fix x
      have "f x \<le> 159" by (rule f(2))
      then show "f x < ID_SIZE_BITS + 1"
        by (simp add: ID_SIZE_BITS_def ID_SIZE_BYTES_def BITS_PER_BYTE_def)
    qed
  qed
  then obtain h' ys where sl: "select_loop (length xs) c r (map f xs) h2 = (Inr (), h')"
      "length h' = length h2" "\<forall>a. a \<noteq> c \<and> a \<noteq> r \<longrightarrow> h' ! a = h2 ! a"
      "h' ! r = h2 ! r @ ys" "sorted (map f ys)" "mset ys = mset (h2 ! c)"
      "\<forall>v. filter (\<lambda>x. f x = v) ys = filter (\<lambda>x. f x = v) (h2 ! c)"
    by blast
  have res: "h' ! r = ys" using sl(4) h2(3) by simp
  have run: "order_closest self id_list h = Some (Inr r, h')"
    using sl(1) assms
    by (simp add: order_closest_def alloc_def nth_append xs_def [symmetric]
        log_distances_map [of self f, OF f(1)] c_def r_def h2_def)
  show ?thesis
    unfolding r_def [symmetric] keyeq
  proof (intro exI [of _ h'] exI [of _ "map f ys"] conjI allI impI)
    show "order_closest self id_list h = Some (Inr r, h')" by (rule run)
    show "length h' = length h + 2" using sl(2) h2(1) by simp
    show "h' ! a = h ! a" if "a < length h" for a
      using that sl(3) h2(5) by (simp add: c_def r_def)
    show "log_distances self (h' ! r) = Some (Inr (map f ys))"
      unfolding res by (rule log_distances_map [OF f(1)])
    show "sorted (map f ys)" by (rule sl(5))
    show "mset (h' ! r) = mset (h ! id_list)" using sl(6) by (simp add: res h2(2) xs_def)
    show "filter (\<lambda>x. f x = k) (h' ! r) = filter (\<lambda>x. f x = k) (h ! id_list)" for k
      using sl(7) by (simp add: res h2(2) xs_def)
  qed
qed

lemma of_char_less: "(of_char c :: nat) < 256"
  by simp

lemma hex_value_upper_char: "hex_value (upper_char c) = hex_value c"
proof (cases "(97::nat) \<le> of_char c \<and> of_char c \<le> (122::nat)")
  case True
  define n where "n = (of_char c :: nat)"
  have n: "97 \<le> n" "n \<le> 122" using True by (simp_all add: n_def)
  have u: "upper_char c = char_of (n - 32)" using True by (simp add: upper_char_def n_def)
  have "(of_char (char_of (n - 32) :: char) :: nat) = (n - 32) mod 256" by simp
  also have "\<dots> = n - 32" using n by simp
  finally have o: "(of_char (upper_char c) :: nat) = n - 32" using u by simp
  have "hex_value (upper_char c) = (if 65 \<le> n - 32 \<and> n - 32 \<le> 70 then Some (n - 32 - 55) else None)"
    using n unfolding hex_value_def o Let_def by auto
  moreover have "hex_value c = (if 97 \<le> n \<and> n \<le> 102 then Some (n - 87) else None)"
    using n unfolding hex_value_def n_def [symmetric] Let_def by auto
  ultimately show ?thesis using n by auto
next
  case False
  show ?thesis by (simp only: upper_char_def False if_False)
qed

lemma b16_char_digit:
  assumes "is_b16_char c"
  shows "\<exists>h<16. hex_value c = Some h \<and> upper_digits ! h = c"
proof -
  define n where "n = (of_char c :: nat)"
  have c: "c = char_of n" by (simp add: n_def)
  have "(48 \<le> n \<and> n \<le> 57) \<or> (65 \<le> n \<and> n \<le> 70)"
    using assms by (simp add: is_b16_char_def n_def Let_def)
  then consider "n = 48" | "n = 49" | "n = 50" | "n = 51" | "n = 52" | "n = 53" | "n = 54"
    | "n = 55" | "n = 56" | "n = 57" | "n = 65" | "n = 66" | "n = 67" | "n = 68" | "n = 69"
    | "n = 70" by atomize_elim presburger
  then show ?thesis
  proof cases
    case 1
    then have "c = CHR ''0''" by (intro of_char_eqI [where ?'a = nat]) (simp add: n_def)
    then show ?thesis by (intro exI [of _ 0]) (simp add: hex_value_def upper_digits_def)
  next
    case 2
    then have "c = CHR ''1''" by (intro of_char_eqI [where ?'a = nat]) (simp add: n_def)
    then show ?thesis by (intro exI [of _ 1]) (simp add: hex_value_def upper_digits_def)
  next
    case 3
    then have "c = CHR ''2''" by (intro of_char_eqI [where ?'a = nat]) (simp add: n_def)
    then show ?thesis by (intro exI [of _ 2]) (simp add: hex_value_def upper_digits_def)
  next
    case 4
    then have "c = CHR ''3''" by (intro of_char_eqI [where ?'a = nat]) (simp add: n_def)
    then show ?thesis by (intro exI [of _ 3]) (simp add: hex_value_def upper_digits_def)
  next
    case 5
    then have "c = CHR ''4''" by (intro of_char_eqI [where ?'a = nat]) (simp add: n_def)
    then show ?thesis by (intro exI [of _ 4]) (simp add: hex_value_def upper_digits_def)
  next
    case 6
    then have "c = CHR ''5''" by (intro of_char_eqI [where ?'a = nat]) (simp add: n_def)
    then show ?thesis by (intro exI [of _ 5]) (simp add: hex_value_def upper_digits_def)
  next
    case 7
    then have "c = CHR ''6''" by (intro of_char_eqI [where ?'a = nat]) (simp add: n_def)
    then show ?thesis by (intro exI [of _ 6]) (simp add: hex_value_def upper_digits_def)
  next
    case 8
    then have "c = CHR ''7''" by (intro of_char_eqI [where ?'a = nat]) (simp add: n_def)
    then show ?thesis by (intro exI [of _ 7]) (simp add: hex_value_def upper_digits_def)
  next
    case 9
    then have "c = CHR ''8''" by (intro of_char_eqI [where ?'a = nat]) (simp add: n_def)
    then show ?thesis by (intro exI [of _ 8]) (simp add: hex_value_def upper_digits_def)
  next
    case 10
    then have "c = CHR ''9''" by (intro of_char_eqI [where ?'a = nat]) (simp add: n_def)
    then show ?thesis by (intro exI [of _ 9]) (simp add: hex_value_def upper_digits_def)
  next
    case 11
    then have "c = CHR ''A''" by (intro of_char_eqI [where ?'a = nat]) (simp add: n_def)
    then show ?thesis by (intro exI [of _ 10]) (simp add: hex_value_def upper_digits_def)
  next
    case 12
    then have "c = CHR ''B''" by (intro of_char_eqI [where ?'a = nat]) (simp add: n_def)
    then show ?thesis by (intro exI [of _ 11]) (simp add: hex_value_def upper_digits_def)
  next
    case 13
    then have "c = CHR ''C''" by (intro of_char_eqI [where ?'a = nat]) (simp add: n_def)
    then show ?thesis by (intro exI [of _ 12]) (simp add: hex_value_def upper_digits_def)
  next
    case 14
    then have "c = CHR ''D''" by (intro of_char_eqI [where ?'a = nat]) (simp add: n_def)
    then show ?thesis by (intro exI [of _ 13]) (simp add: hex_value_def upper_digits_def)
  next
    case 15
    then have "c = CHR ''E''" by (intro of_char_eqI [where ?'a = nat]) (simp add: n_def)
    then show ?thesis by (intro exI [of _ 14]) (simp add: hex_value_def upper_digits_def)
  next
    case 16
    then have "c = CHR ''F''" by (intro of_char_eqI [where ?'a = nat]) (simp add: n_def)
    then show ?thesis by (intro exI [of _ 15]) (simp add: hex_value_def upper_digits_def)
  qed
qed

lemma b16_char_upper: "is_b16_char c \<Longrightarrow> upper_char c = c"
  by (auto simp: is_b16_char_def upper_char_def Let_def)

lemma nibbles:
  "list_all (\<lambda>k. hex_value (upper_digits ! k) = Some k \<and> hex_value (lower_digits ! k) = Some k \<and>
      is_b16_char (upper_digits ! k)) [0..<16]"
  by code_simp

lemma nibble_facts:
  assumes "k < 16"
  shows "hex_value (upper_digits ! k) = Some k" "hex_value (lower_digits ! k) = Some k"
    "is_b16_char (upper_digits ! k)"
  using nibbles assms by (simp_all add: list_all_iff)

lemma ord_nat: "ord c = int (of_char c)"
  by (simp add: ord_def of_nat_of_char)

lemma hexlify_Cons:
  "hexlify_upper (c # s) =
     upper_digits ! (of_char c div 16) # upper_digits ! (of_char c mod 16) # hexlify_upper s"
  by (simp add: hexlify_upper_def)

lemma hexlify_Nil: "hexlify_upper [] = []"
  by (simp add: hexlify_upper_def)

lemma hexlify_empty: "hexlify_upper s = [] \<longleftrightarrow> s = []"
  by (cases s) (simp_all add: hexlify_Cons hexlify_Nil)

lemma nibble_bounds: "(of_char c :: nat) div 16 < 16" "(of_char c :: nat) mod 16 < 16"
proof -
  have "(of_char c :: nat) < 256" by simp
  then show "(of_char c :: nat) div 16 < 16" by (simp add: less_mult_imp_div_less)
  show "(of_char c :: nat) mod 16 < 16" by simp
qed

lemma hexlify_b16: "c \<in> set (hexlify_upper s) \<Longrightarrow> is_b16_char c"
proof (induction s)
  case Nil
  then show ?case by (simp add: hexlify_Nil)
next
  case (Cons a s)
  then show ?case
    using nibble_facts(3) [OF nibble_bounds(1) [of a]] nibble_facts(3) [OF nibble_bounds(2) [of a]]
    by (auto simp: hexlify_Cons)
qed

lemma b16_hex_value: "is_b16_char c \<Longrightarrow> hex_value c \<noteq> None"
  using b16_char_digit by fastforce

lemma foldl_hexlify:
  "foldl (\<lambda>acc c. 16 * acc + int (the (hex_value c))) acc (hexlify_upper s)
     = foldl (\<lambda>acc c. 256 * acc + ord c) acc s"
proof (induction s arbitrary: acc)
  case Nil
  show ?case by (simp add: hexlify_Nil)
next
  case (Cons a s)
  define n where "n = (of_char a :: nat)"
  have h: "hex_value (upper_digits ! (n div 16)) = Some (n div 16)"
    "hex_value (upper_digits ! (n mod 16)) = Some (n mod 16)"
    unfolding n_def by (rule nibble_facts(1), rule nibble_bounds)+
  have "int n = int (16 * (n div 16) + n mod 16)" by simp
  also have "\<dots> = 16 * int (n div 16) + int (n mod 16)"
    by (simp only: of_nat_add of_nat_mult of_nat_numeral)
  finally have e: "256 * acc + 16 * int (n div 16) + int (n mod 16) = 256 * acc + int n"
    by linarith
  show ?case
    using Cons.IH h by (simp add: hexlify_Cons n_def [symmetric] ord_nat e)
qed

lemma int_16_b16encode: "s \<noteq> [] \<Longrightarrow> int_16 (b16encode s) = Inr (be_int s)"
proof -
  assume "s \<noteq> []"
  then have "hexlify_upper s \<noteq> []" by (simp add: hexlify_empty)
  moreover have "\<not> list_ex (\<lambda>c. hex_value c = None) (hexlify_upper s)"
    using hexlify_b16 b16_hex_value by (auto simp: list_ex_iff)
  ultimately show ?thesis
    by (simp add: int_16_def b16encode_def be_int_def foldl_hexlify)
qed

lemma int_16_upper: "int_16 (str_upper h) = int_16 h"
proof -
  have f: "foldl (\<lambda>acc c. 16 * acc + int (the (hex_value c))) acc (map upper_char h)
            = foldl (\<lambda>acc c. 16 * acc + int (the (hex_value c))) acc h" for acc
    by (induction h arbitrary: acc) (simp_all add: hex_value_upper_char)
  have e: "list_ex (\<lambda>c. hex_value c = None) (map upper_char h) = list_ex (\<lambda>c. hex_value c = None) h"
    by (induction h) (simp_all add: hex_value_upper_char)
  show ?thesis by (simp add: int_16_def str_upper_def f e)
qed

lemma str_upper_b16: "\<forall>c\<in>set s. is_b16_char c \<Longrightarrow> str_upper s = s"
  by (induction s) (simp_all add: str_upper_def b16_char_upper)

lemma unhexlify_encode:
  "unhexlify s = Inr b \<Longrightarrow> \<forall>c\<in>set s. is_b16_char c \<Longrightarrow>
   hexlify_upper b = s \<and> length s = 2 * length b"
proof (induction s arbitrary: b rule: unhexlify.induct)
  case 1
  then show ?case by (simp add: hexlify_Nil)
next
  case (2 c)
  then show ?case by simp
next
  case (3 x y r)
  obtain h where h: "h < 16" "hex_value x = Some h" "upper_digits ! h = x"
    using b16_char_digit [of x] "3.prems"(2) by auto
  obtain l where l: "l < 16" "hex_value y = Some l" "upper_digits ! l = y"
    using b16_char_digit [of y] "3.prems"(2) by auto
  obtain bs where bs: "unhexlify r = Inr bs" "b = char_of (16 * h + l) # bs"
    using "3.prems"(1) h(2) l(2) by (auto split: sum.splits)
  have ih: "hexlify_upper bs = r \<and> length r = 2 * length bs"
    using "3.IH" [OF h(2) l(2) bs(1)] "3.prems"(2) by simp
  have "(of_char (char_of (16 * h + l) :: char) :: nat) = (16 * h + l) mod 256" by simp
  also have "\<dots> = 16 * h + l" using h(1) l(1) by simp
  finally have o: "(of_char (char_of (16 * h + l) :: char) :: nat) = 16 * h + l" .
  have dm: "(16 * h + l) div 16 = h" "(16 * h + l) mod 16 = l" using l(1) by simp_all
  show ?case using ih h(3) l(3) l(1) by (simp add: bs(2) hexlify_Cons o dm del: of_char_of)
qed

lemma b16decode_fold:
  assumes "b16decode s True = Inr b"
  shows "b16encode b = str_upper s" "length s = 2 * length b"
proof -
  have a: "\<forall>c\<in>set (str_upper s). is_b16_char c" and u: "unhexlify (str_upper s) = Inr b"
    using assms by (auto simp: b16decode_def list_ex_iff Let_def split: if_splits)
  from unhexlify_encode [OF u a] show "b16encode b = str_upper s" "length s = 2 * length b"
    by (simp_all add: b16encode_def str_upper_def)
qed

lemma b16decode_strict:
  assumes "b16decode s False = Inr b"
  shows "b16encode b = s" "str_upper s = s" "length s = 2 * length b"
proof -
  have a: "\<forall>c\<in>set s. is_b16_char c" and u: "unhexlify s = Inr b"
    using assms by (auto simp: b16decode_def list_ex_iff Let_def split: if_splits)
  from unhexlify_encode [OF u a] show "b16encode b = s" "length s = 2 * length b"
    by (simp_all add: b16encode_def)
  show "str_upper s = s" using a by (rule str_upper_b16)
qed

lemma b16decode_Inl: "b16decode s f = Inl e \<Longrightarrow> e = TypeError"
proof -
  have "unhexlify t = Inl e \<Longrightarrow> e = TypeError" for t
    by (induction t rule: unhexlify.induct) (auto split: option.splits sum.splits)
  then show "b16decode s f = Inl e \<Longrightarrow> e = TypeError"
    by (auto simp: b16decode_def Let_def split: if_splits)
qed

lemma hex_digits_small: "n < 16 \<Longrightarrow> hex_digits n = [lower_digits ! n]"
  by (subst hex_digits.simps) simp

lemma hex_digits_large:
  "\<not> n < 16 \<Longrightarrow> hex_digits n = hex_digits (n div 16) @ [lower_digits ! (n mod 16)]"
  by (subst hex_digits.simps) simp

lemma hex_digits_value:
  "\<not> list_ex (\<lambda>c. hex_value c = None) (hex_digits n) \<and>
   foldl (\<lambda>acc c. 16 * acc + int (the (hex_value c))) 0 (hex_digits n) = int n"
proof (induction n rule: hex_digits.induct)
  case (1 n)
  show ?case
  proof (cases "n < 16")
    case True
    then show ?thesis by (simp add: hex_digits_small nibble_facts(2))
  next
    case False
    have m: "hex_value (lower_digits ! (n mod 16)) = Some (n mod 16)"
      by (rule nibble_facts(2)) simp
    have "int n = int (16 * (n div 16) + n mod 16)" by simp
    also have "\<dots> = 16 * int (n div 16) + int (n mod 16)"
      by (simp only: of_nat_add of_nat_mult of_nat_numeral)
    finally have e: "16 * int (n div 16) + int (n mod 16) = int n" by simp
    show ?thesis using "1.IH" [OF False] False m e by (simp add: hex_digits_large)
  qed
qed

lemma zero_pad_value:
  "\<not> list_ex (\<lambda>c. hex_value c = None) s \<Longrightarrow>
   \<not> list_ex (\<lambda>c. hex_value c = None) (zero_pad w s) \<and>
   foldl (\<lambda>acc c. 16 * acc + int (the (hex_value c))) 0 (zero_pad w s)
     = foldl (\<lambda>acc c. 16 * acc + int (the (hex_value c))) 0 s"
proof -
  assume a: "\<not> list_ex (\<lambda>c. hex_value c = None) s"
  have z: "hex_value (CHR ''0'') = Some 0" by (simp add: hex_value_def)
  have r: "foldl (\<lambda>acc c. 16 * acc + int (the (hex_value c))) 0 (replicate m (CHR ''0'')) = 0" for m
    by (induction m) (simp_all add: z)
  show ?thesis using a z by (auto simp: zero_pad_def r list_ex_iff)
qed

lemma int_16_format: "0 \<le> n \<Longrightarrow> int_16 (format_040x n) = Inr n"
proof -
  assume n: "0 \<le> n"
  have "zero_pad 40 (hex_digits (nat n)) \<noteq> []"
    by (subst hex_digits.simps) (simp add: zero_pad_def)
  then show ?thesis
    using n zero_pad_value [OF conjunct1 [OF hex_digits_value [of "nat n"]], of 40]
      hex_digits_value [of "nat n"]
    by (simp add: int_16_def format_040x_def)
qed

lemma b16decode_format_negative: "n < 0 \<Longrightarrow> b16decode (format_040x n) False = Inl TypeError"
proof -
  assume "n < 0"
  moreover have "\<not> is_b16_char (CHR ''-'')" by (simp add: is_b16_char_def)
  ultimately show ?thesis by (simp add: b16decode_def format_040x_def)
qed

lemma b16encode_upper: "str_upper (b16encode s) = b16encode s"
  unfolding b16encode_def using hexlify_b16 by (intro str_upper_b16) blast

lemma b16encode_empty: "b16encode s = [] \<longleftrightarrow> s = []"
  by (simp add: b16encode_def hexlify_empty)

lemma init_finish_Inr:
  "init_finish b h n = Inr a \<Longrightarrow>
   \<exists>s. b = Some s \<and> s \<noteq> [] \<and> a = \<lparr>p_bin_id = s, p_bin = s, p_hex = h, p_int = n\<rparr>"
  by (auto simp: init_finish_def split: option.splits if_splits)

lemma Id_init_inv:
  assumes "Id_init x = Inr a"
  shows "Id_inv a"
proof (cases x)
  case (PyStr s)
  consider (bytes) "int (length s) = ID_SIZE_BYTES"
    | (hex) "int (length s) \<noteq> ID_SIZE_BYTES" "int (length s) = ID_SIZE_BYTES * 2"
    | (other) "int (length s) \<noteq> ID_SIZE_BYTES" "int (length s) \<noteq> ID_SIZE_BYTES * 2" by blast
  then show ?thesis
  proof cases
    case bytes
    then have "init_finish (Some s) None None = Inr a" using assms PyStr by (simp add: Id_init_def)
    then show ?thesis using init_finish_Inr by (fastforce simp: Id_inv_def)
  next
    case hex
    then obtain b where b: "hex_to_bin s = Inr b" "init_finish (Some b) (Some s) None = Inr a"
      using assms PyStr by (auto simp: Id_init_def split: sum.splits)
    then have d: "b16decode s True = Inr b" by (auto simp: hex_to_bin_def split: sum.splits)
    obtain t where t: "Some b = Some t" "t \<noteq> []"
      "a = \<lparr>p_bin_id = t, p_bin = t, p_hex = Some s, p_int = None\<rparr>"
      using init_finish_Inr [OF b(2)] by blast
    show ?thesis using t b16decode_fold(1) [OF d] by (simp add: Id_inv_def)
  next
    case other
    then have "init_finish None None None = Inr a" using assms PyStr by (simp add: Id_init_def)
    then show ?thesis by (simp add: init_finish_def)
  qed
next
  case (PyInt n)
  then obtain b where d: "b16decode (format_040x n) False = Inr b"
    and f: "init_finish (Some b) (Some (format_040x n)) (Some n) = Inr a"
    using assms by (auto simp: Id_init_def split: sum.splits)
  obtain t where t: "Some b = Some t" "t \<noteq> []"
    "a = \<lparr>p_bin_id = t, p_bin = t, p_hex = Some (format_040x n), p_int = Some n\<rparr>"
    using init_finish_Inr [OF f] by blast
  have n: "0 \<le> n"
  proof (rule ccontr)
    assume "\<not> 0 \<le> n"
    then show False using b16decode_format_negative [of n] d by simp
  qed
  have e: "b16encode b = format_040x n" "str_upper (format_040x n) = format_040x n"
    using b16decode_strict [OF d] by simp_all
  have "int_16 (b16encode b) = Inr (be_int b)" using t by (intro int_16_b16encode) simp
  then have "n = be_int b" using int_16_format [OF n] e(1) by simp
  then show ?thesis using t e by (simp add: Id_inv_def)
next
  case PyOther
  then have "init_finish None None None = Inr a" using assms by (simp add: Id_init_def)
  then show ?thesis by (simp add: init_finish_def)
qed

lemma Id_hex_inv:
  assumes "Id_inv a"
  shows "str_upper (fst (Id_hex a)) = b16encode (p_bin a)" "Id_inv (snd (Id_hex a))"
    "p_bin (snd (Id_hex a)) = p_bin a" "fst (Id_hex a) \<noteq> []"
proof -
  have ne: "b16encode (p_bin a) \<noteq> []" using assms by (simp add: Id_inv_def b16encode_empty)
  have "str_upper (fst (Id_hex a)) = b16encode (p_bin a) \<and> Id_inv (snd (Id_hex a)) \<and>
    p_bin (snd (Id_hex a)) = p_bin a"
  proof (cases "p_hex a")
    case None
    then show ?thesis
      using assms by (simp add: Id_hex_def bin_to_hex_def b16encode_upper Id_inv_def)
  next
    case (Some h)
    then have u: "str_upper h = b16encode (p_bin a)" using assms by (simp add: Id_inv_def)
    then have "h \<noteq> []" using ne by (auto simp: str_upper_def)
    then show ?thesis using Some u assms by (simp add: Id_hex_def)
  qed
  then show "str_upper (fst (Id_hex a)) = b16encode (p_bin a)" "Id_inv (snd (Id_hex a))"
    "p_bin (snd (Id_hex a)) = p_bin a" by simp_all
  then show "fst (Id_hex a) \<noteq> []" using ne by (auto simp: str_upper_def)
qed

lemma Id_int_fill_inv:
  assumes "Id_inv a"
  shows "fst (Id_int_fill a) = Inr (be_int (p_bin a)) \<and> Id_inv (snd (Id_int_fill a)) \<and>
    p_bin (snd (Id_int_fill a)) = p_bin a"
proof -
  obtain h a1 where h: "Id_hex a = (h, a1)" by (cases "Id_hex a")
  have u: "str_upper h = b16encode (p_bin a)" and i: "Id_inv a1" and b: "p_bin a1 = p_bin a"
    using Id_hex_inv [OF assms] h by simp_all
  have "int_16 h = int_16 (b16encode (p_bin a))" using u int_16_upper [of h] by simp
  also have "\<dots> = Inr (be_int (p_bin a))"
    using assms by (intro int_16_b16encode) (simp add: Id_inv_def)
  finally have v: "int_16 h = Inr (be_int (p_bin a))" .
  have "Id_inv (a1\<lparr>p_int := Some (be_int (p_bin a))\<rparr>)"
    using i b by (simp add: Id_inv_def)
  then show ?thesis using h v b by (simp add: Id_int_fill_def)
qed

lemma Id_int_inv:
  assumes "Id_inv a"
  shows "fst (Id_int a) = Inr (be_int (p_bin a))" "Id_inv (snd (Id_int a))"
    "p_bin (snd (Id_int a)) = p_bin a"
proof -
  have "fst (Id_int a) = Inr (be_int (p_bin a)) \<and> Id_inv (snd (Id_int a)) \<and>
    p_bin (snd (Id_int a)) = p_bin a"
  proof (cases "p_int a")
    case None
    then show ?thesis using Id_int_fill_inv [OF assms] by (simp add: Id_int_def)
  next
    case (Some n)
    then have "n = be_int (p_bin a)" using assms by (simp add: Id_inv_def)
    then show ?thesis using Some Id_int_fill_inv [OF assms] assms by (simp add: Id_int_def)
  qed
  then show "fst (Id_int a) = Inr (be_int (p_bin a))" "Id_inv (snd (Id_int a))"
    "p_bin (snd (Id_int a)) = p_bin a" by simp_all
qed

lemma Id_obj_inv: "Id_obj a \<Longrightarrow> Id_inv a"
  by (induction rule: Id_obj.induct) (simp_all add: Id_init_inv Id_hex_inv(2) Id_int_inv(2))

lemma foldl_be:
  "foldl (\<lambda>acc c. 256 * acc + ord c) acc q = acc * 256 ^ length q + be_int q"
proof (induction q arbitrary: acc rule: rev_induct)
  case Nil
  show ?case by (simp add: be_int_def)
next
  case (snoc x q)
  have "be_int (q @ [x]) = 256 * be_int q + ord x" by (simp add: be_int_def)
  then show ?case using snoc [of acc] by (simp add: algebra_simps)
qed

lemma be_int_append: "be_int (p @ q) = be_int p * 256 ^ length q + be_int q"
  using foldl_be [of "be_int p" q] by (simp add: be_int_def)

lemma be_int_range: "0 \<le> be_int q \<and> be_int q < 256 ^ length q"
proof (induction q rule: rev_induct)
  case Nil
  show ?case by (simp add: be_int_def)
next
  case (snoc x q)
  have e: "be_int (q @ [x]) = 256 * be_int q + ord x" by (simp add: be_int_def)
  have "be_int q + 1 \<le> 256 ^ length q" using snoc by simp
  then have "256 * (be_int q + 1) \<le> 256 * 256 ^ length q" by (rule mult_left_mono) simp
  then show ?case using snoc ord_range [of x] e by simp
qed

lemma xor_low_byte:
  assumes "0 \<le> x" "x < 256" "0 \<le> y" "y < 256"
  shows "(256 * P + x) XOR (256 * P + y) = x XOR (y::int)"
proof -
  have x: "take_bit 8 x = x" and y: "take_bit 8 y = y"
    using assms by (simp_all add: take_bit_int_eq_self)
  have cx: "256 * P + x = concat_bit 8 x P" and cy: "256 * P + y = concat_bit 8 y P"
    by (simp_all add: concat_bit_eq x y push_bit_eq_mult)
  have hx: "bit x n \<Longrightarrow> n < 8" and hy: "bit y n \<Longrightarrow> n < 8" for n
    using range_small_bits [of x 8 n] range_small_bits [of y 8 n] assms by auto
  show ?thesis
    unfolding cx cy
    by (rule bit_eqI) (auto simp: bit_xor_iff bit_concat_bit_iff dest: hx hy)
qed

lemma drop_bit_high:
  assumes "0 \<le> B" "B < 2 ^ k"
  shows "drop_bit k (A * 2 ^ k + B) = (A::int)"
  using assms by (simp add: drop_bit_eq_div)

lemma bracket_shift:
  assumes "0 \<le> (D::int)" and "2 ^ k \<le> drop_bit m D" and "drop_bit m D < 2 ^ (k + 1)"
  shows "2 ^ (m + k) \<le> D \<and> D < 2 ^ (m + k + 1)"
proof -
  define Z where "Z = D div 2 ^ m"
  have z: "2 ^ k \<le> Z" "Z + 1 \<le> 2 ^ (k + 1)" using assms(2,3) by (simp_all add: Z_def drop_bit_eq_div)
  have d: "D = 2 ^ m * Z + D mod 2 ^ m" by (simp add: Z_def)
  have r: "0 \<le> D mod 2 ^ m" "D mod 2 ^ m < 2 ^ m" by simp_all
  have "(2::int) ^ m * 2 ^ k \<le> 2 ^ m * Z" using z(1) by (intro mult_left_mono) simp_all
  then have "(2::int) ^ m * 2 ^ k \<le> D" using d r(1) by linarith
  then have lo: "2 ^ (m + k) \<le> D" by (simp add: power_add)
  have "(2::int) ^ m * (Z + 1) \<le> 2 ^ m * 2 ^ (k + 1)" using z(2) by (intro mult_left_mono) simp_all
  moreover have "2 ^ m * (Z + 1) = 2 ^ m * Z + 2 ^ m" by (simp add: algebra_simps)
  then have "D < 2 ^ m * (Z + 1)" using d r(2) by linarith
  ultimately have "D < 2 ^ m * 2 ^ (k + 1)" by linarith
  then have "D < 2 ^ (m + k + 1)" by (simp add: power_add)
  then show ?thesis using lo by simp
qed

lemma be_int_xor_bracket:
  assumes "length a = length b" and "i < length a" and "\<forall>j<i. a ! j = b ! j"
    and "2 ^ k \<le> ord (a ! i) XOR ord (b ! i)" and "ord (a ! i) XOR ord (b ! i) < 2 ^ (k + 1)"
  shows "2 ^ (8 * (length a - i - 1) + k) \<le> be_int a XOR be_int b \<and>
         be_int a XOR be_int b < 2 ^ (8 * (length a - i - 1) + k + 1)"
proof -
  define m where "m = length a - i - 1"
  define p where "p = take i a"
  have pb: "p = take i b"
    using assms(1-3) by (auto simp: p_def list_eq_iff_nth_eq)
  have a: "a = (p @ [a ! i]) @ drop (Suc i) a"
    using assms(2) by (simp add: p_def id_take_nth_drop [symmetric])
  have b: "b = (p @ [b ! i]) @ drop (Suc i) b"
    using assms(1,2) by (simp add: pb id_take_nth_drop [symmetric])
  have la: "length (drop (Suc i) a) = m" and lb: "length (drop (Suc i) b) = m"
    using assms(1,2) by (simp_all add: m_def)
  have pw: "(256::int) ^ m = 2 ^ (8 * m)" by (simp add: power_mult)
  have h: "be_int (p @ [c]) = 256 * be_int p + ord c" for c by (simp add: be_int_def)
  have da: "drop_bit (8 * m) (be_int a) = 256 * be_int p + ord (a ! i)"
  proof -
    have "be_int a = be_int (p @ [a ! i]) * 2 ^ (8 * m) + be_int (drop (Suc i) a)"
      using be_int_append [of "p @ [a ! i]" "drop (Suc i) a"] a la pw by simp
    then show ?thesis
      using be_int_range [of "drop (Suc i) a"] la pw h by (simp add: drop_bit_high)
  qed
  have db: "drop_bit (8 * m) (be_int b) = 256 * be_int p + ord (b ! i)"
  proof -
    have "be_int b = be_int (p @ [b ! i]) * 2 ^ (8 * m) + be_int (drop (Suc i) b)"
      using be_int_append [of "p @ [b ! i]" "drop (Suc i) b"] b lb pw by simp
    then show ?thesis
      using be_int_range [of "drop (Suc i) b"] lb pw h by (simp add: drop_bit_high)
  qed
  have "drop_bit (8 * m) (be_int a XOR be_int b) = ord (a ! i) XOR ord (b ! i)"
    using ord_range [of "a ! i"] ord_range [of "b ! i"]
    by (simp add: drop_bit_xor da db xor_low_byte)
  moreover have "0 \<le> be_int a XOR be_int b"
    using be_int_range [of a] be_int_range [of b] by simp
  ultimately show ?thesis
    unfolding m_def [symmetric] using assms(4,5) by (intro bracket_shift) simp_all
qed

lemma log_distance_different:
  assumes "length (Id_bin_id a) = 20" and "length (Id_bin_id b) = 20"
    and "Id_bin_id a \<noteq> Id_bin_id b"
  shows "\<exists>i k. i < 20 \<and> k \<le> 7 \<and> take i (Id_bin_id a) = take i (Id_bin_id b) \<and>
           Id_bin_id a ! i \<noteq> Id_bin_id b ! i \<and>
           2 ^ k \<le> ord (Id_bin_id a ! i) XOR ord (Id_bin_id b ! i) \<and>
           ord (Id_bin_id a ! i) XOR ord (Id_bin_id b ! i) < 2 ^ (k + 1) \<and>
           log_distance a b = Some (Inr (int (8 * (19 - i) + k))) \<and>
           2 ^ (8 * (19 - i) + k) \<le> be_int (Id_bin_id a) XOR be_int (Id_bin_id b) \<and>
           be_int (Id_bin_id a) XOR be_int (Id_bin_id b) < 2 ^ (8 * (19 - i) + k + 1)"
proof -
  define A where "A = Id_bin_id a"
  define B where "B = Id_bin_id b"
  have l: "length A = 20" "length B = 20" "A \<noteq> B" using assms by (simp_all add: A_def B_def)
  have "\<not> (\<exists>e. first_different_byte A B = Inl e)"
    using first_different_byte_equal [of A B] l by simp
  then obtain i where i: "first_different_byte A B = Inr i"
    by (cases "first_different_byte A B") auto
  have fi: "i < 20" "A ! i \<noteq> B ! i" "\<forall>j<i. A ! j = B ! j"
    using fdb_from_Inr [of 0 A B i] i l by (simp_all add: first_different_byte_def)
  have tk: "take i A = take i B"
    using fi(1,3) l by (auto simp: list_eq_iff_nth_eq)
  obtain j where j: "j \<le> 7"
      "log_distance a b = Some (Inr ((ID_SIZE_BYTES - int i - 1) * 8 + (7 - int j)))"
      "2 ^ (7 - j) \<le> ord (A ! i) XOR ord (B ! i)" "ord (A ! i) XOR ord (B ! i) < 2 ^ (8 - j)"
    using log_distance_found [of a b i] i unfolding A_def B_def by blast
  define k where "k = 7 - j"
  have k: "k \<le> 7" "8 - j = k + 1" "7 - int j = int k" using j(1) by (simp_all add: k_def)
  have n: "(ID_SIZE_BYTES - int i - 1) * 8 + (7 - int j) = int (8 * (19 - i) + k)"
    using fi(1) k(3) by (simp add: ID_SIZE_BYTES_def)
  have br: "2 ^ (8 * (length A - i - 1) + k) \<le> be_int A XOR be_int B \<and>
         be_int A XOR be_int B < 2 ^ (8 * (length A - i - 1) + k + 1)"
    using l fi j(3,4) k(2) by (intro be_int_xor_bracket) (simp_all add: k_def)
  show ?thesis
    unfolding A_def [symmetric] B_def [symmetric]
  proof (rule exI [of _ i], rule exI [of _ k], intro conjI)
    show "i < 20" by (rule fi(1))
    show "k \<le> 7" by (rule k(1))
    show "take i A = take i B" by (rule tk)
    show "A ! i \<noteq> B ! i" by (rule fi(2))
    show "2 ^ k \<le> ord (A ! i) XOR ord (B ! i)" using j(3) by (simp add: k_def)
    show "ord (A ! i) XOR ord (B ! i) < 2 ^ (k + 1)" using j(4) k(2) by simp
    show "log_distance a b = Some (Inr (int (8 * (19 - i) + k)))" using j(2) n by simp
    show "2 ^ (8 * (19 - i) + k) \<le> be_int A XOR be_int B"
      "be_int A XOR be_int B < 2 ^ (8 * (19 - i) + k + 1)"
      using br l(1) by simp_all
  qed
qed

lemma hex_path_verbatim:
  assumes "Id_init (PyStr s) = Inr c" and "int (length s) = ID_SIZE_BYTES * 2"
  shows "fst (Id_hex c) = s"
proof -
  have ne: "int (length s) \<noteq> ID_SIZE_BYTES" using assms(2) by (simp add: ID_SIZE_BYTES_def)
  obtain b where b: "init_finish (Some b) (Some s) None = Inr c"
    using assms ne by (auto simp: Id_init_def split: sum.splits)
  then have "p_hex c = Some s" using init_finish_Inr [OF b] by auto
  moreover have "s \<noteq> []" using assms(2) by (auto simp: ID_SIZE_BYTES_def)
  ultimately show ?thesis by (simp add: Id_hex_def)
qed

lemma bytes_path_upper:
  assumes "Id_init (PyStr s) = Inr c" and "int (length s) = ID_SIZE_BYTES"
  shows "fst (Id_hex c) = b16encode s" "\<forall>ch\<in>set (fst (Id_hex c)). is_b16_char ch"
proof -
  have "c = id_of_bytes s" using Id_init_bytes [OF assms(2)] assms(1) by simp
  then show h: "fst (Id_hex c) = b16encode s"
    by (simp add: Id_hex_def id_of_bytes_def bin_to_hex_def)
  show "\<forall>ch\<in>set (fst (Id_hex c)). is_b16_char ch"
    unfolding h b16encode_def using hexlify_b16 by blast
qed

lemma Id_hex_fields:
  "p_hex x = p_hex y \<Longrightarrow> p_bin x = p_bin y \<Longrightarrow> fst (Id_hex x) = fst (Id_hex y)"
  by (simp add: Id_hex_def split: option.splits)

lemma Id_hex_after_hex:
  assumes "Id_inv c"
  shows "fst (Id_hex (snd (Id_hex c))) = fst (Id_hex c)"
proof -
  have ne: "b16encode (p_bin c) \<noteq> []" using assms by (simp add: Id_inv_def b16encode_empty)
  show ?thesis
  proof (cases "p_hex c")
    case None
    then show ?thesis using ne by (simp add: Id_hex_def bin_to_hex_def)
  next
    case (Some h)
    show ?thesis
    proof (cases "h = []")
      case True
      then show ?thesis using Some ne by (simp add: Id_hex_def bin_to_hex_def)
    next
      case False
      then show ?thesis using Some by (simp add: Id_hex_def)
    qed
  qed
qed

lemma Id_hex_after_int:
  assumes "Id_inv c"
  shows "fst (Id_hex (snd (Id_int c))) = fst (Id_hex c)"
proof -
  have fill: "fst (Id_hex (snd (Id_int_fill c))) = fst (Id_hex c)"
  proof -
    obtain h c1 where h: "Id_hex c = (h, c1)" by (cases "Id_hex c")
    have "int_16 h = Inr (be_int (p_bin c))"
      using Id_int_fill_inv [OF assms] h by (auto simp: Id_int_fill_def split: sum.splits)
    then have "snd (Id_int_fill c) = c1\<lparr>p_int := Some (be_int (p_bin c))\<rparr>"
      using h by (simp add: Id_int_fill_def)
    then have "fst (Id_hex (snd (Id_int_fill c))) = fst (Id_hex c1)"
      by (intro Id_hex_fields) simp_all
    also have "\<dots> = fst (Id_hex c)" using Id_hex_after_hex [OF assms] h by simp
    finally show ?thesis .
  qed
  show ?thesis
  proof (cases "p_int c")
    case None
    then show ?thesis using fill by (simp add: Id_int_def)
  next
    case (Some n)
    then show ?thesis using fill by (simp add: Id_int_def)
  qed
qed









section \<open>Construction from an integer\<close>

text \<open>
  C2 (integer round trip). For \<open>0 \<le> n < 2^160\<close> the claim says that construction from
  \<open>n\<close> succeeds. The integer branch of \<open>Id.__init__\<close> formats \<open>n\<close> with lower-case
  digits and decodes the text without case folding, so at \<open>n = 10\<close> (text ending in
  \<open>a\<close>) the decoder raises TypeError and no identifier is constructed.
\<close>

theorem Id_init_int_10_raises: "Id_init (PyInt 10) = Inl TypeError"
  by code_simp

section \<open>Termination of log_distance\<close>

text \<open>
  C10. For two identifiers with 20-byte buffers \<open>log_distance\<close> returns. When the
  buffers are equal, the byte scan raises IndexError and the answer is -1 without any
  call of the bit scan. When the byte scan finds a position, the two bytes there differ,
  their XOR is not 0, and the while loop of \<open>_first_different_bit\<close> returns its counter
  \<open>i\<close>, which is the number of rounds it made and is below 8.
\<close>

theorem log_distance_terminates:
  assumes "int (length (Id_bin_id a)) = ID_SIZE_BYTES"
    and "int (length (Id_bin_id b)) = ID_SIZE_BYTES"
  shows "(\<exists>n. log_distance a b = Some (Inr n)) \<and>
         (Id_bin_id a = Id_bin_id b \<longrightarrow>
            first_different_byte (Id_bin_id a) (Id_bin_id b) = Inl IndexError \<and>
            log_distance a b = Some (Inr (- 1))) \<and>
         (\<forall>k. first_different_byte (Id_bin_id a) (Id_bin_id b) = Inr k \<longrightarrow>
            Id_bin_id a ! k \<noteq> Id_bin_id b ! k \<and>
            ord (Id_bin_id a ! k) XOR ord (Id_bin_id b ! k) \<noteq> 0 \<and>
            (\<exists>i<8. first_different_bit_loop (ord (Id_bin_id a ! k) XOR ord (Id_bin_id b ! k)) 0
                      = Some i))"
proof (intro conjI impI allI)
  show "\<exists>n. log_distance a b = Some (Inr n)" using log_distance_total by blast
next
  assume e: "Id_bin_id a = Id_bin_id b"
  then obtain x where x: "first_different_byte (Id_bin_id a) (Id_bin_id b) = Inl x"
    using first_different_byte_equal [of "Id_bin_id a" "Id_bin_id b"] by auto
  then have "x = IndexError" using fdb_from_Inl by (simp add: first_different_byte_def)
  then show "first_different_byte (Id_bin_id a) (Id_bin_id b) = Inl IndexError" using x by simp
  show "log_distance a b = Some (Inr (- 1))" using e by (rule log_distance_equal)
next
  fix k
  assume k: "first_different_byte (Id_bin_id a) (Id_bin_id b) = Inr k"
  then show d: "Id_bin_id a ! k \<noteq> Id_bin_id b ! k"
    using fdb_from_Inr [of 0 _ _ k] by (simp add: first_different_byte_def)
  then show "ord (Id_bin_id a ! k) XOR ord (Id_bin_id b ! k) \<noteq> 0"
    using ord_xor_pos by fastforce
  obtain j where "j \<le> 7"
    "first_different_bit_loop (ord (Id_bin_id a ! k) XOR ord (Id_bin_id b ! k)) 0 = Some j"
    using first_different_bit_total [OF d] by blast
  then show "\<exists>i<8. first_different_bit_loop (ord (Id_bin_id a ! k) XOR ord (Id_bin_id b ! k)) 0
                      = Some i"
    by (intro exI [of _ j]) simp
qed


theorem log_distance_terminates_witness:
  "(\<exists>n. log_distance (id_of_bytes (replicate 20 (CHR 0x00)))
           (id_of_bytes (replicate 19 (CHR 0x00) @ [CHR 0x01])) = Some (Inr n)) \<and>
   first_different_byte (replicate 20 (CHR 0x00)) (replicate 19 (CHR 0x00) @ [CHR 0x01]) = Inr 19 \<and>
   (\<exists>i<8. first_different_bit_loop (ord (CHR 0x00) XOR ord (CHR 0x01)) 0 = Some i)"
proof -
  let ?a = "id_of_bytes (replicate 20 (CHR 0x00))"
  let ?b = "id_of_bytes (replicate 19 (CHR 0x00) @ [CHR 0x01])"
  have la: "int (length (Id_bin_id ?a)) = ID_SIZE_BYTES"
    by (simp add: Id_bin_id_def id_of_bytes_def ID_SIZE_BYTES_def)
  have lb: "int (length (Id_bin_id ?b)) = ID_SIZE_BYTES"
    by (simp add: Id_bin_id_def id_of_bytes_def ID_SIZE_BYTES_def)
  have k: "first_different_byte (replicate 20 (CHR 0x00)) (replicate 19 (CHR 0x00) @ [CHR 0x01]) = Inr 19"
    by code_simp
  have ba: "Id_bin_id ?a = replicate 20 (CHR 0x00)"
    and bb: "Id_bin_id ?b = replicate 19 (CHR 0x00) @ [CHR 0x01]"
    by (simp_all add: Id_bin_id_def id_of_bytes_def)
  have n19: "(replicate 20 (CHR 0x00)) ! 19 = CHR 0x00"
    "(replicate 19 (CHR 0x00) @ [CHR 0x01]) ! 19 = CHR 0x01"
    by (simp_all add: nth_append)
  note th = log_distance_terminates [OF la lb]
  have t: "\<exists>n. log_distance ?a ?b = Some (Inr n)"
    by (rule conjunct1 [OF th])
  have k': "first_different_byte (Id_bin_id ?a) (Id_bin_id ?b) = Inr 19"
    unfolding ba bb by (rule k)
  have "Id_bin_id ?a ! 19 \<noteq> Id_bin_id ?b ! 19 \<and>
        ord (Id_bin_id ?a ! 19) XOR ord (Id_bin_id ?b ! 19) \<noteq> 0 \<and>
        (\<exists>i<8. first_different_bit_loop (ord (Id_bin_id ?a ! 19) XOR ord (Id_bin_id ?b ! 19)) 0
                  = Some i)"
    by (rule mp [OF spec [OF conjunct2 [OF conjunct2 [OF th]]] k'])
  then have "\<exists>i<8. first_different_bit_loop (ord (CHR 0x00) XOR ord (CHR 0x01)) 0 = Some i"
    unfolding ba bb n19 by (elim conjE)
  with t k show ?thesis by (intro conjI)
qed

section \<open>Targets outside the range of generate_close_id\<close>

text \<open>
  C7, as amended. The claim says that every target outside \<open>[-1, 160)\<close> fails in
  assertion style. The function asserts only \<open>log_distance < ID_SIZE_BITS\<close> and then
  returns \<open>self\<close> for every negative target: a target of 160 or more raises
  AssertionError, which is not IdError, and a target below -1 returns \<open>self\<close>.
\<close>

theorem generate_close_id_outside_range:
  "(ID_SIZE_BITS \<le> d \<longrightarrow> generate_close_id self d g = (Inl AssertionError, g)) \<and>
   (d' < 0 \<longrightarrow> generate_close_id self d' g = (Inr self, g)) \<and>
   AssertionError \<noteq> IdError"
  by (simp add: generate_close_id_def ID_SIZE_BITS_def ID_SIZE_BYTES_def BITS_PER_BYTE_def)

theorem generate_close_id_outside_range_witness:
  "generate_close_id (id_of_bytes (replicate 20 (CHR 0x00))) 160 zero_rng
     = (Inl AssertionError, zero_rng) \<and>
   generate_close_id (id_of_bytes (replicate 20 (CHR 0x00))) (- 5) zero_rng
     = (Inr (id_of_bytes (replicate 20 (CHR 0x00))), zero_rng)"
  using generate_close_id_outside_range
    [of 160 "id_of_bytes (replicate 20 (CHR 0x00))" zero_rng "- 5"]
  by (simp add: ID_SIZE_BITS_def ID_SIZE_BYTES_def BITS_PER_BYTE_def)

text \<open>The target -2 lies outside \<open>[-1, 160)\<close> and the call returns an identifier.\<close>

theorem generate_close_id_minus_2_returns:
  "generate_close_id (id_of_bytes (replicate 20 (CHR 0x00))) (- 2) zero_rng
     = (Inr (id_of_bytes (replicate 20 (CHR 0x00))), zero_rng)"
  by (simp add: generate_close_id_def ID_SIZE_BITS_def ID_SIZE_BYTES_def BITS_PER_BYTE_def)

section \<open>Generation at an exact log distance\<close>

text \<open>
  C5. For a 20-byte \<open>self\<close>, a target \<open>d\<close> with \<open>0 \<le> d < 160\<close> and any generator,
  \<open>generate_close_id\<close> returns an identifier of 20 bytes whose \<open>log_distance\<close> to \<open>self\<close> is
  \<open>d\<close>. The bytes before index \<open>19 - d div 8\<close> are those of \<open>self\<close>; in the byte at that
  index the bit \<open>d mod 8\<close> is flipped, the higher bits are kept and the lower bits are the
  draws; the bytes after it are the following draws. For the target -1 the result is
  \<open>self\<close>.
\<close>

theorem generate_close_id_exact:
  assumes len: "int (length (Id_bin_id self)) = ID_SIZE_BYTES"
    and d: "0 \<le> d" "d < ID_SIZE_BITS"
  shows "(\<exists>r g'. generate_close_id self d g = (Inr r, g') \<and>
            log_distance self r = Some (Inr d) \<and>
            int (length (Id_bin_id r)) = ID_SIZE_BYTES \<and>
            take (nat (19 - d div 8)) (Id_bin_id r) = take (nat (19 - d div 8)) (Id_bin_id self) \<and>
            (\<forall>n. bit (ord (Id_bin_id r ! nat (19 - d div 8))) n \<longleftrightarrow>
               (if n < nat (d mod 8) then odd (draws g (cursor g + n))
                else if n = nat (d mod 8)
                  then \<not> bit (ord (Id_bin_id self ! nat (19 - d div 8))) n
                  else bit (ord (Id_bin_id self ! nat (19 - d div 8))) n)) \<and>
            (\<forall>m<nat (d div 8). Id_bin_id r ! (nat (19 - d div 8) + 1 + m)
                 = char_of (draws g (cursor g + nat (d mod 8) + m) mod 256)) \<and>
            draws g' = draws g \<and> cursor g' = cursor g + nat (d mod 8) + nat (d div 8)) \<and>
         generate_close_id self (- 1) g = (Inr self, g)"
proof
  define s where "s = Id_bin_id self"
  define bn where "bn = nat (d mod 8)"
  define bi where "bi = nat (19 - d div 8)"
  define c where "c = s ! bi"
  have l: "length s = 20" using len by (simp add: ID_SIZE_BYTES_def s_def)
  have r: "0 \<le> d div 8" "d div 8 \<le> 19"
    using d by (simp_all add: ID_SIZE_BITS_def ID_SIZE_BYTES_def BITS_PER_BYTE_def)
  have bn7: "bn \<le> 7" and bnd: "int bn = d mod 8" using d by (simp_all add: bn_def)
  have bi20: "bi < 20" and bid: "int bi = 19 - d div 8" using r by (simp_all add: bi_def)
  have nb: "nat (d div 8) = 19 - bi" using r by (simp add: bi_def)
  \<comment> \<open>the flipped byte and the random bits\<close>
  define b0 where "b0 = ord c XOR push_bit bn 1"
  have b0_bits: "bit b0 n \<longleftrightarrow> (bit (ord c) n \<noteq> (n = bn))" for n
    by (auto simp: b0_def bit_xor_iff bit_exp_iff)
  have b0_small: "\<forall>n. bit b0 n \<longrightarrow> n < 8"
    using b0_bits ord_bit_small bn7 by (auto split: if_splits)
  obtain v g1 where rb: "randomize_bits 0 bn b0 g = (v, g1)" and g1: "draws g1 = draws g"
      "cursor g1 = cursor g + bn"
    and vb: "\<And>n. bit v n \<longleftrightarrow> (if n < bn then odd (draws g (cursor g + n)) else bit b0 n)"
    using randomize_bits_spec [of bn b0 0 g] b0_small bn7 by auto
  have v_small: "\<forall>n. bit v n \<longrightarrow> n < 8"
    using vb b0_small bn7 by (auto split: if_splits)
  then have v: "0 \<le> v" "v < 256" using small_bits_range [of v 8] by simp_all
  have ov: "ord (char_of v) = v" using v by (simp add: ord_def)
  \<comment> \<open>the random bytes\<close>
  obtain e g2 where rs: "random_bytes (19 - bi) g1 = (Inr e, g2)" and le: "length e = 19 - bi"
    and g2: "draws g2 = draws g1" "cursor g2 = cursor g1 + (19 - bi)"
    and eb: "\<forall>m<19 - bi. e ! m = char_of (draws g1 (cursor g1 + m) mod 256)"
    using random_bytes_spec [of "19 - bi" g1] by blast
  define t where "t = take bi s @ [char_of v] @ e"
  have lt: "length t = 20" using l le bi20 by (simp add: t_def)
  have run: "generate_close_id self d g = (Id_init (PyStr t), g2)"
    unfolding t_def s_def bi_def
    by (rule generate_close_id_run [OF len d _ v])
       (use rb rs in \<open>simp_all add: bn_def bi_def b0_def c_def s_def nb\<close>)
  have init: "Id_init (PyStr t) = Inr (id_of_bytes t)"
    using lt by (intro Id_init_bytes) (simp add: ID_SIZE_BYTES_def)
  have bt: "Id_bin_id (id_of_bytes t) = t" by (simp add: Id_bin_id_def id_of_bytes_def)
  \<comment> \<open>the parts of the result\<close>
  have t_take: "take bi t = take bi s" using l bi20 by (simp add: t_def)
  have t_bi: "t ! bi = char_of v" using l bi20 by (simp add: t_def nth_append)
  have t_after: "t ! (bi + 1 + m) = e ! m" for m
    using l bi20 by (simp add: t_def nth_append)
  have t_before: "s ! j = t ! j" if "j < bi" for j
    using that l bi20 by (simp add: t_def nth_append)
  \<comment> \<open>the log distance\<close>
  have xb: "bit (ord c XOR v) n \<longleftrightarrow> (if n < bn then bit (ord c) n \<noteq> odd (draws g (cursor g + n))
                                        else n = bn)" for n
    using vb [of n] b0_bits [of n] by (auto simp: bit_xor_iff)
  have top: "2 ^ bn \<le> ord c XOR v \<and> ord c XOR v < 2 ^ (bn + 1)"
    by (rule top_bit_bounds) (simp_all add: xb)
  have ne: "s ! bi \<noteq> t ! bi"
  proof
    assume "s ! bi = t ! bi"
    then have "ord c = v" using t_bi ov by (simp add: c_def)
    then show False using top by simp
  qed
  have fdb: "first_different_byte (Id_bin_id self) (Id_bin_id (id_of_bytes t)) = Inr bi"
    unfolding first_different_byte_def bt s_def [symmetric]
    using l lt bi20 ne t_before by (intro fdb_from_unique) auto
  obtain j where j: "j \<le> 7"
    "log_distance self (id_of_bytes t) = Some (Inr ((ID_SIZE_BYTES - int bi - 1) * 8 + (7 - int j)))"
    "2 ^ (7 - j) \<le> ord (s ! bi) XOR ord (t ! bi)" "ord (s ! bi) XOR ord (t ! bi) < 2 ^ (8 - j)"
    using log_distance_found [OF fdb] unfolding bt s_def [symmetric] by blast
  have "7 - j = bn"
  proof (rule bracket_unique)
    show "2 ^ (7 - j) \<le> ord c XOR v" using j(3) by (simp add: c_def t_bi ov)
    have "7 - j + 1 = 8 - j" using j(1) by simp
    then show "ord c XOR v < 2 ^ (7 - j + 1)" using j(4) by (simp only: c_def t_bi ov)
    show "2 ^ bn \<le> ord c XOR v" "ord c XOR v < 2 ^ (bn + 1)" using top by simp_all
  qed
  then have "7 - int j = d mod 8" using j(1) bnd by linarith
  then have ld: "log_distance self (id_of_bytes t) = Some (Inr d)"
    using j(2) bid by (simp add: ID_SIZE_BYTES_def)
  \<comment> \<open>the bits of the changed byte\<close>
  have bits: "bit (ord (t ! bi)) n \<longleftrightarrow>
               (if n < bn then odd (draws g (cursor g + n))
                else if n = bn then \<not> bit (ord (s ! bi)) n else bit (ord (s ! bi)) n)" for n
    using vb [of n] b0_bits [of n] by (auto simp: t_bi ov c_def)
  have after: "t ! (bi + 1 + m) = char_of (draws g (cursor g + bn + m) mod 256)" if "m < 19 - bi" for m
    using that eb g1 t_after [of m] by simp
  have cur: "cursor g2 = cursor g + bn + (19 - bi)" "draws g2 = draws g" using g1 g2 by simp_all
  show "\<exists>r g'. generate_close_id self d g = (Inr r, g') \<and>
            log_distance self r = Some (Inr d) \<and>
            int (length (Id_bin_id r)) = ID_SIZE_BYTES \<and>
            take (nat (19 - d div 8)) (Id_bin_id r) = take (nat (19 - d div 8)) (Id_bin_id self) \<and>
            (\<forall>n. bit (ord (Id_bin_id r ! nat (19 - d div 8))) n \<longleftrightarrow>
               (if n < nat (d mod 8) then odd (draws g (cursor g + n))
                else if n = nat (d mod 8)
                  then \<not> bit (ord (Id_bin_id self ! nat (19 - d div 8))) n
                  else bit (ord (Id_bin_id self ! nat (19 - d div 8))) n)) \<and>
            (\<forall>m<nat (d div 8). Id_bin_id r ! (nat (19 - d div 8) + 1 + m)
                 = char_of (draws g (cursor g + nat (d mod 8) + m) mod 256)) \<and>
            draws g' = draws g \<and> cursor g' = cursor g + nat (d mod 8) + nat (d div 8)"
    unfolding bn_def [symmetric] bi_def [symmetric] nb s_def [symmetric]
  proof (intro exI [of _ "id_of_bytes t"] exI [of _ g2] conjI allI impI)
    show "generate_close_id self d g = (Inr (id_of_bytes t), g2)" using run init by simp
    show "log_distance self (id_of_bytes t) = Some (Inr d)" by (rule ld)
    show "int (length (Id_bin_id (id_of_bytes t))) = ID_SIZE_BYTES"
      using lt by (simp add: bt ID_SIZE_BYTES_def)
    show "take bi (Id_bin_id (id_of_bytes t)) = take bi s" unfolding bt by (rule t_take)
    show "bit (ord (Id_bin_id (id_of_bytes t) ! bi)) n =
           (if n < bn then odd (draws g (cursor g + n))
            else if n = bn then \<not> bit (ord (s ! bi)) n else bit (ord (s ! bi)) n)" for n
      unfolding bt by (rule bits)
    show "Id_bin_id (id_of_bytes t) ! (bi + 1 + m) = char_of (draws g (cursor g + bn + m) mod 256)"
      if "m < 19 - bi" for m
      unfolding bt using that by (rule after)
    show "draws g2 = draws g" "cursor g2 = cursor g + bn + (19 - bi)" using cur by simp_all
  qed
next
  show "generate_close_id self (- 1) g = (Inr self, g)"
    by (simp add: generate_close_id_def ID_SIZE_BITS_def ID_SIZE_BYTES_def BITS_PER_BYTE_def)
qed

theorem generate_close_id_exact_witness:
  "\<exists>r g'. generate_close_id (id_of_bytes (replicate 20 (CHR 0x00))) 9 counting_rng = (Inr r, g') \<and>
      log_distance (id_of_bytes (replicate 20 (CHR 0x00))) r = Some (Inr 9) \<and>
      cursor g' = 2"
proof -
  let ?a = "id_of_bytes (replicate 20 (CHR 0x00))"
  have len: "int (length (Id_bin_id ?a)) = ID_SIZE_BYTES"
    by (simp add: Id_bin_id_def id_of_bytes_def ID_SIZE_BYTES_def)
  have d: "(0::int) \<le> 9" "9 < ID_SIZE_BITS"
    by (simp_all add: ID_SIZE_BITS_def ID_SIZE_BYTES_def BITS_PER_BYTE_def)
  have c: "cursor counting_rng + nat (9 mod 8) + nat (9 div 8) = 2"
    by (simp add: counting_rng_def)
  from conjunct1 [OF generate_close_id_exact [OF len d, of counting_rng]]
  obtain r g' where "generate_close_id ?a 9 counting_rng = (Inr r, g')"
    "log_distance ?a r = Some (Inr 9)"
    "cursor g' = cursor counting_rng + nat (9 mod 8) + nat (9 div 8)"
    by (elim exE conjE)
  then show ?thesis unfolding c by (intro exI conjI)
qed

section \<open>Closeness ordering\<close>

text \<open>
  C6. \<open>order_closest\<close> returns; the list at the returned address holds the elements of
  the input list (as a multiset), their log distances to \<open>self\<close> are non-decreasing, and
  for every distance \<open>k\<close> the elements at distance \<open>k\<close> stand in the result in the order
  they have in the input.
\<close>

theorem order_closest_sorted_stable:
  assumes "id_list < length h"
  shows "\<exists>result h' ds. order_closest self id_list h = Some (Inr result, h') \<and>
           log_distances self (h' ! result) = Some (Inr ds) \<and> sorted ds \<and>
           mset (h' ! result) = mset (h ! id_list) \<and>
           (\<forall>k. filter (\<lambda>x. log_distance self x = Some (Inr k)) (h' ! result)
                = filter (\<lambda>x. log_distance self x = Some (Inr k)) (h ! id_list))"
proof -
  from order_closest_spec [OF assms, of self] obtain h' ds where
    "order_closest self id_list h = Some (Inr (Suc (length h)), h')"
    "log_distances self (h' ! Suc (length h)) = Some (Inr ds)" "sorted ds"
    "mset (h' ! Suc (length h)) = mset (h ! id_list)"
    "\<forall>k. filter (\<lambda>x. log_distance self x = Some (Inr k)) (h' ! Suc (length h))
                = filter (\<lambda>x. log_distance self x = Some (Inr k)) (h ! id_list)"
    by (elim exE conjE)
  then show ?thesis by (intro exI conjI)
qed

lemma order_closest_example:
  "order_closest zero_id 0 [[last_byte_id (CHR 0x02), last_byte_id (CHR 0x03), zero_id]]
   = Some (Inr 2,
       [[last_byte_id (CHR 0x02), last_byte_id (CHR 0x03), zero_id],
        [],
        [zero_id, last_byte_id (CHR 0x02), last_byte_id (CHR 0x03)]])"
  by code_simp

theorem order_closest_sorted_stable_witness:
  "\<exists>ds. order_closest zero_id 0 [[last_byte_id (CHR 0x02), last_byte_id (CHR 0x03), zero_id]]
           = Some (Inr 2,
               [[last_byte_id (CHR 0x02), last_byte_id (CHR 0x03), zero_id],
                [],
                [zero_id, last_byte_id (CHR 0x02), last_byte_id (CHR 0x03)]]) \<and>
         log_distances zero_id [zero_id, last_byte_id (CHR 0x02), last_byte_id (CHR 0x03)]
           = Some (Inr ds) \<and>
         sorted ds"
proof -
  let ?h = "[[last_byte_id (CHR 0x02), last_byte_id (CHR 0x03), zero_id]]"
  have "(0::nat) < length ?h" by simp
  from order_closest_sorted_stable [OF this, of zero_id] obtain result h' ds where
    r: "order_closest zero_id 0 ?h = Some (Inr result, h')"
    "log_distances zero_id (h' ! result) = Some (Inr ds)" "sorted ds"
    by (elim exE conjE)
  from r(1) have "result = 2"
    and "h' = [[last_byte_id (CHR 0x02), last_byte_id (CHR 0x03), zero_id], [],
               [zero_id, last_byte_id (CHR 0x02), last_byte_id (CHR 0x03)]]"
    unfolding order_closest_example by simp_all
  then have "h' ! result = [zero_id, last_byte_id (CHR 0x02), last_byte_id (CHR 0x03)]" by simp
  with r(2,3) show ?thesis using order_closest_example by (intro exI [of _ ds] conjI) simp_all
qed

section \<open>The input list of order_closest\<close>

text \<open>
  C9. The call returns, and the store after it holds at the address of \<open>id_list\<close>, and
  at every address that existed before the call, the list it held before. The result is
  a list at a new address.
\<close>

theorem order_closest_input_unchanged:
  assumes "id_list < length h"
  shows "\<exists>result h'. order_closest self id_list h = Some (Inr result, h') \<and>
           h' ! id_list = h ! id_list \<and> (\<forall>a<length h. h' ! a = h ! a) \<and>
           length h \<le> result"
proof -
  from order_closest_spec [OF assms, of self] obtain h' where
    "order_closest self id_list h = Some (Inr (Suc (length h)), h')"
    "\<forall>a<length h. h' ! a = h ! a"
    by (elim exE conjE)
  then show ?thesis using assms by (intro exI [of _ "Suc (length h)"] exI [of _ h']) simp
qed

theorem order_closest_input_unchanged_witness:
  "\<exists>result h'. order_closest zero_id 0 [[last_byte_id (CHR 0x05), zero_id]] = Some (Inr result, h') \<and>
     h' ! 0 = [last_byte_id (CHR 0x05), zero_id]"
proof -
  let ?h = "[[last_byte_id (CHR 0x05), zero_id]]"
  have "(0::nat) < length ?h" by simp
  from order_closest_input_unchanged [OF this, of zero_id] obtain result h' where
    "order_closest zero_id 0 ?h = Some (Inr result, h')" "h' ! 0 = ?h ! 0"
    by (elim exE conjE)
  then show ?thesis by (intro exI [of _ result] exI [of _ h']) simp
qed

section \<open>Hexadecimal and integer forms of equal identifiers\<close>

text \<open>
  C8, as amended. Two objects with equal byte buffers return the same integer, the
  big-endian value of the buffer, whatever constructor input made them and whatever was
  read from them before. Their hexadecimal strings are equal after upper-casing, where
  they are the base-16 encoding of the buffer. The strings themselves are not brought to
  one case: an object constructed from a 40-character hexadecimal \<open>str\<close> returns that text
  as it was given, an object constructed from a 20-byte \<open>str\<close> returns the base-16
  encoding of the bytes, whose characters are all among \<open>0-9\<close> and \<open>A-F\<close>, and reading
  \<open>hex\<close> or \<open>int\<close> from an object does not change the string that \<open>hex\<close> returns.
\<close>

theorem equal_ids_same_forms:
  assumes "Id_obj a" and "Id_obj b" and "Id_eq a b"
  shows "fst (Id_int a) = fst (Id_int b) \<and>
         fst (Id_int a) = Inr (be_int (Id_bin_id a)) \<and>
         str_upper (fst (Id_hex a)) = str_upper (fst (Id_hex b)) \<and>
         str_upper (fst (Id_hex a)) = b16encode (Id_bin_id a) \<and>
         (\<forall>s c. Id_init (PyStr s) = Inr c \<and> int (length s) = ID_SIZE_BYTES * 2 \<longrightarrow>
            fst (Id_hex c) = s) \<and>
         (\<forall>s c. Id_init (PyStr s) = Inr c \<and> int (length s) = ID_SIZE_BYTES \<longrightarrow>
            fst (Id_hex c) = b16encode s \<and> (\<forall>ch\<in>set (fst (Id_hex c)). is_b16_char ch)) \<and>
         fst (Id_hex (snd (Id_hex a))) = fst (Id_hex a) \<and>
         fst (Id_hex (snd (Id_int a))) = fst (Id_hex a)"
proof -
  have ia: "Id_inv a" and ib: "Id_inv b" using assms(1,2) by (simp_all add: Id_obj_inv)
  have e: "p_bin a = p_bin b" using assms(3) by (simp add: Id_eq_def Id_bin_id_def)
  have forms: "fst (Id_int a) = fst (Id_int b) \<and>
         fst (Id_int a) = Inr (be_int (Id_bin_id a)) \<and>
         str_upper (fst (Id_hex a)) = str_upper (fst (Id_hex b)) \<and>
         str_upper (fst (Id_hex a)) = b16encode (Id_bin_id a)"
    using Id_int_inv(1) [OF ia] Id_int_inv(1) [OF ib] Id_hex_inv(1) [OF ia] Id_hex_inv(1) [OF ib] e
    by (simp add: Id_bin_id_def)
  have hex: "\<forall>s c. Id_init (PyStr s) = Inr c \<and> int (length s) = ID_SIZE_BYTES * 2 \<longrightarrow>
            fst (Id_hex c) = s"
    using hex_path_verbatim by blast
  have bytes: "\<forall>s c. Id_init (PyStr s) = Inr c \<and> int (length s) = ID_SIZE_BYTES \<longrightarrow>
            fst (Id_hex c) = b16encode s \<and> (\<forall>ch\<in>set (fst (Id_hex c)). is_b16_char ch)"
    using bytes_path_upper by blast
  show ?thesis
    using forms hex bytes Id_hex_after_hex [OF ia] Id_hex_after_int [OF ia] by (intro conjI) blast+
qed

lemma Id_init_hex_example:
  "Id_init (PyStr (replicate 40 CHR ''a''))
     = Inr (id_of_hex (replicate 40 CHR ''a'') (replicate 20 (CHR 0xAA)))"
  by code_simp

lemma Id_init_bytes_example:
  "Id_init (PyStr (replicate 20 (CHR 0xAA))) = Inr (id_of_bytes (replicate 20 (CHR 0xAA)))"
  by code_simp

theorem equal_ids_same_forms_witness:
  "fst (Id_int (id_of_hex (replicate 40 CHR ''a'') (replicate 20 (CHR 0xAA))))
     = fst (Id_int (id_of_bytes (replicate 20 (CHR 0xAA)))) \<and>
   str_upper (fst (Id_hex (id_of_hex (replicate 40 CHR ''a'') (replicate 20 (CHR 0xAA)))))
     = str_upper (fst (Id_hex (id_of_bytes (replicate 20 (CHR 0xAA))))) \<and>
   fst (Id_hex (id_of_hex (replicate 40 CHR ''a'') (replicate 20 (CHR 0xAA))))
     = replicate 40 CHR ''a'' \<and>
   fst (Id_hex (id_of_bytes (replicate 20 (CHR 0xAA)))) = b16encode (replicate 20 (CHR 0xAA))"
proof -
  let ?a = "id_of_hex (replicate 40 CHR ''a'') (replicate 20 (CHR 0xAA))"
  let ?b = "id_of_bytes (replicate 20 (CHR 0xAA))"
  have a: "Id_obj ?a" by (rule Id_obj.constructed [OF Id_init_hex_example])
  have b: "Id_obj ?b" by (rule Id_obj.constructed [OF Id_init_bytes_example])
  have e: "Id_eq ?a ?b" by (simp add: Id_eq_def Id_bin_id_def id_of_hex_def id_of_bytes_def)
  have la: "int (length (replicate 40 CHR ''a'')) = ID_SIZE_BYTES * 2"
    and lb: "int (length (replicate 20 (CHR 0xAA))) = ID_SIZE_BYTES"
    by (simp_all add: ID_SIZE_BYTES_def)
  note th = equal_ids_same_forms [OF a b e]
  have i: "fst (Id_int ?a) = fst (Id_int ?b)" using th by (elim conjE)
  have u: "str_upper (fst (Id_hex ?a)) = str_upper (fst (Id_hex ?b))" using th by (elim conjE)
  have hx: "\<forall>s c. Id_init (PyStr s) = Inr c \<and> int (length s) = ID_SIZE_BYTES * 2 \<longrightarrow>
            fst (Id_hex c) = s" using th by (elim conjE)
  have bt: "\<forall>s c. Id_init (PyStr s) = Inr c \<and> int (length s) = ID_SIZE_BYTES \<longrightarrow>
            fst (Id_hex c) = b16encode s \<and> (\<forall>ch\<in>set (fst (Id_hex c)). is_b16_char ch)"
    using th by (elim conjE)
  have h1: "fst (Id_hex ?a) = replicate 40 CHR ''a''"
    using hx Id_init_hex_example la by blast
  have h2: "fst (Id_hex ?b) = b16encode (replicate 20 (CHR 0xAA))"
    using bt Id_init_bytes_example lb by blast
  show ?thesis using i u h1 h2 by (intro conjI)
qed

text \<open>
  Two equal identifiers whose hexadecimal strings differ: one made from the text
  \<open>aa...a\<close>, one made from the twenty bytes 0xAA.
\<close>

theorem hex_case_not_canonical:
  "Id_init (PyStr (replicate 40 CHR ''a''))
     = Inr (id_of_hex (replicate 40 CHR ''a'') (replicate 20 (CHR 0xAA))) \<and>
   Id_init (PyStr (replicate 20 (CHR 0xAA))) = Inr (id_of_bytes (replicate 20 (CHR 0xAA))) \<and>
   Id_eq (id_of_hex (replicate 40 CHR ''a'') (replicate 20 (CHR 0xAA)))
         (id_of_bytes (replicate 20 (CHR 0xAA))) \<and>
   fst (Id_hex (id_of_hex (replicate 40 CHR ''a'') (replicate 20 (CHR 0xAA))))
     = replicate 40 CHR ''a'' \<and>
   fst (Id_hex (id_of_bytes (replicate 20 (CHR 0xAA)))) = replicate 40 CHR ''A''"
proof (intro conjI)
  show "Id_init (PyStr (replicate 40 CHR ''a''))
     = Inr (id_of_hex (replicate 40 CHR ''a'') (replicate 20 (CHR 0xAA)))"
    by (rule Id_init_hex_example)
  show "Id_init (PyStr (replicate 20 (CHR 0xAA))) = Inr (id_of_bytes (replicate 20 (CHR 0xAA)))"
    by (rule Id_init_bytes_example)
  show "Id_eq (id_of_hex (replicate 40 CHR ''a'') (replicate 20 (CHR 0xAA)))
         (id_of_bytes (replicate 20 (CHR 0xAA)))"
    by (simp add: Id_eq_def Id_bin_id_def id_of_hex_def id_of_bytes_def)
  show "fst (Id_hex (id_of_hex (replicate 40 CHR ''a'') (replicate 20 (CHR 0xAA))))
     = replicate 40 CHR ''a''"
    by (simp add: Id_hex_def id_of_hex_def)
  show "fst (Id_hex (id_of_bytes (replicate 20 (CHR 0xAA)))) = replicate 40 CHR ''A''"
    by code_simp
qed

section \<open>The value of log_distance\<close>

text \<open>
  C4. For two objects with 20-byte buffers, \<open>log_distance\<close> returns \<open>n\<close> with
  \<open>-1 \<le> n \<le> 159\<close>, and \<open>n = -1\<close> exactly when the objects are equal. When they differ,
  \<open>2^n \<le> x XOR y < 2^(n+1)\<close> for the integers \<open>x\<close> and \<open>y\<close> that the property \<open>int\<close>
  returns, and \<open>n\<close> is \<open>unmatching_bytes * 8 + unmatching_bits\<close>: \<open>i\<close> is the first index
  where the buffers differ and \<open>k\<close> the position of the highest bit in which the two
  bytes there differ. A distance of 1 gives 0, a distance of at least \<open>2^159\<close> gives 159.
\<close>

theorem log_distance_value:
  assumes "Id_obj a" and "Id_obj b"
    and "int (length (Id_bin_id a)) = ID_SIZE_BYTES"
    and "int (length (Id_bin_id b)) = ID_SIZE_BYTES"
  shows "\<exists>n x y. log_distance a b = Some (Inr n) \<and>
           fst (Id_int a) = Inr x \<and> fst (Id_int b) = Inr y \<and>
           - 1 \<le> n \<and> n \<le> 159 \<and> (n = - 1 \<longleftrightarrow> Id_eq a b) \<and>
           (\<not> Id_eq a b \<longrightarrow>
              2 ^ nat n \<le> x XOR y \<and> x XOR y < 2 ^ (nat n + 1) \<and>
              (\<exists>i k. i < 20 \<and> k \<le> 7 \<and>
                 take i (Id_bin_id a) = take i (Id_bin_id b) \<and>
                 Id_bin_id a ! i \<noteq> Id_bin_id b ! i \<and>
                 2 ^ k \<le> ord (Id_bin_id a ! i) XOR ord (Id_bin_id b ! i) \<and>
                 ord (Id_bin_id a ! i) XOR ord (Id_bin_id b ! i) < 2 ^ (k + 1) \<and>
                 n = (ID_SIZE_BYTES - int i - 1) * BITS_PER_BYTE + int k)) \<and>
           (x XOR y = 1 \<longrightarrow> n = 0) \<and> (2 ^ 159 \<le> x XOR y \<longrightarrow> n = 159)"
proof -
  define x where "x = be_int (Id_bin_id a)"
  define y where "y = be_int (Id_bin_id b)"
  have xa: "fst (Id_int a) = Inr x" and yb: "fst (Id_int b) = Inr y"
    using Id_int_inv(1) [OF Id_obj_inv] assms(1,2) by (simp_all add: x_def y_def Id_bin_id_def)
  have l: "length (Id_bin_id a) = 20" "length (Id_bin_id b) = 20"
    using assms(3,4) by (simp_all add: ID_SIZE_BYTES_def)
  show ?thesis
  proof (cases "Id_bin_id a = Id_bin_id b")
    case True
    then have "x XOR y = 0" by (simp add: x_def y_def)
    moreover have "log_distance a b = Some (Inr (- 1))" using True by (rule log_distance_equal)
    ultimately show ?thesis
      using xa yb True by (intro exI [of _ "- 1"] exI [of _ x] exI [of _ y]) (simp add: Id_eq_def)
  next
    case False
    obtain i k where ik: "i < 20" "k \<le> 7" "take i (Id_bin_id a) = take i (Id_bin_id b)"
        "Id_bin_id a ! i \<noteq> Id_bin_id b ! i"
        "2 ^ k \<le> ord (Id_bin_id a ! i) XOR ord (Id_bin_id b ! i)"
        "ord (Id_bin_id a ! i) XOR ord (Id_bin_id b ! i) < 2 ^ (k + 1)"
        "log_distance a b = Some (Inr (int (8 * (19 - i) + k)))"
        "2 ^ (8 * (19 - i) + k) \<le> x XOR y" "x XOR y < 2 ^ (8 * (19 - i) + k + 1)"
      using log_distance_different [OF l False] unfolding x_def y_def by blast
    define m where "m = 8 * (19 - i) + k"
    have m: "m \<le> 159" using ik(1,2) by (simp add: m_def)
    have form: "int m = (ID_SIZE_BYTES - int i - 1) * BITS_PER_BYTE + int k"
      using ik(1) by (simp add: m_def ID_SIZE_BYTES_def BITS_PER_BYTE_def)
    have br: "2 ^ m \<le> x XOR y" "x XOR y < 2 ^ (m + 1)" using ik(8,9) by (simp_all add: m_def)
    have one: "m = 0" if "x XOR y = 1"
    proof (rule bracket_unique [of m "x XOR y" 0])
      show "2 ^ m \<le> x XOR y" "x XOR y < 2 ^ (m + 1)" by (fact br)+
      show "2 ^ 0 \<le> x XOR y" "x XOR y < 2 ^ (0 + 1)" using that by simp_all
    qed
    have top: "m = 159" if "2 ^ 159 \<le> x XOR y"
    proof -
      have "(2::int) ^ 159 < 2 ^ (m + 1)" using that br(2) by linarith
      then have "159 < m + 1" by (rule power_less_imp_less_exp [rotated]) simp
      then show ?thesis using m by simp
    qed
    have parts: "\<exists>i k. i < 20 \<and> k \<le> 7 \<and>
                 take i (Id_bin_id a) = take i (Id_bin_id b) \<and>
                 Id_bin_id a ! i \<noteq> Id_bin_id b ! i \<and>
                 2 ^ k \<le> ord (Id_bin_id a ! i) XOR ord (Id_bin_id b ! i) \<and>
                 ord (Id_bin_id a ! i) XOR ord (Id_bin_id b ! i) < 2 ^ (k + 1) \<and>
                 int m = (ID_SIZE_BYTES - int i - 1) * BITS_PER_BYTE + int k"
      using ik(1-6) form by blast
    show ?thesis
    proof (rule exI [of _ "int m"], rule exI [of _ x], rule exI [of _ y], intro conjI impI)
      show "log_distance a b = Some (Inr (int m))" using ik(7) by (simp add: m_def)
      show "fst (Id_int a) = Inr x" "fst (Id_int b) = Inr y" by (fact xa yb)+
      show "- 1 \<le> int m" by simp
      show "int m \<le> 159" using m by simp
      show "(int m = - 1) = Id_eq a b" using False by (simp add: Id_eq_def)
      show "2 ^ nat (int m) \<le> x XOR y" "x XOR y < 2 ^ (nat (int m) + 1)" using br by simp_all
      show "\<exists>i k. i < 20 \<and> k \<le> 7 \<and>
                 take i (Id_bin_id a) = take i (Id_bin_id b) \<and>
                 Id_bin_id a ! i \<noteq> Id_bin_id b ! i \<and>
                 2 ^ k \<le> ord (Id_bin_id a ! i) XOR ord (Id_bin_id b ! i) \<and>
                 ord (Id_bin_id a ! i) XOR ord (Id_bin_id b ! i) < 2 ^ (k + 1) \<and>
                 int m = (ID_SIZE_BYTES - int i - 1) * BITS_PER_BYTE + int k"
        by (rule parts)
      show "int m = 0" if "x XOR y = 1" using one [OF that] by simp
      show "int m = 159" if "2 ^ 159 \<le> x XOR y" using top [OF that] by simp
    qed
  qed
qed

lemma log_distance_example: "log_distance zero_id (last_byte_id (CHR 0x01)) = Some (Inr 0)"
  by code_simp

theorem log_distance_value_witness:
  "\<exists>x y. log_distance zero_id (last_byte_id (CHR 0x01)) = Some (Inr 0) \<and>
     fst (Id_int zero_id) = Inr x \<and> fst (Id_int (last_byte_id (CHR 0x01))) = Inr y \<and>
     2 ^ 0 \<le> x XOR y \<and> x XOR y < 2 ^ 1"
proof -
  let ?a = "zero_id" and ?b = "last_byte_id (CHR 0x01)"
  have la: "int (length (Id_bin_id ?a)) = ID_SIZE_BYTES"
    and lb: "int (length (Id_bin_id ?b)) = ID_SIZE_BYTES"
    by (simp_all add: zero_id_def last_byte_id_def id_of_bytes_def Id_bin_id_def ID_SIZE_BYTES_def)
  have "Id_init (PyStr (replicate 20 (CHR 0x00))) = Inr ?a"
    unfolding zero_id_def by (rule Id_init_bytes) (simp add: ID_SIZE_BYTES_def)
  then have a: "Id_obj ?a" by (rule Id_obj.constructed)
  have "Id_init (PyStr (replicate 19 (CHR 0x00) @ [CHR 0x01])) = Inr ?b"
    unfolding last_byte_id_def by (rule Id_init_bytes) (simp add: ID_SIZE_BYTES_def)
  then have b: "Id_obj ?b" by (rule Id_obj.constructed)
  have ne: "\<not> Id_eq ?a ?b"
    by code_simp
  from log_distance_value [OF a b la lb] obtain n x y where
    r: "log_distance ?a ?b = Some (Inr n)" "fst (Id_int ?a) = Inr x" "fst (Id_int ?b) = Inr y"
    "\<not> Id_eq ?a ?b \<longrightarrow> 2 ^ nat n \<le> x XOR y \<and> x XOR y < 2 ^ (nat n + 1) \<and>
       (\<exists>i k. i < 20 \<and> k \<le> 7 \<and>
          take i (Id_bin_id ?a) = take i (Id_bin_id ?b) \<and>
          Id_bin_id ?a ! i \<noteq> Id_bin_id ?b ! i \<and>
          2 ^ k \<le> ord (Id_bin_id ?a ! i) XOR ord (Id_bin_id ?b ! i) \<and>
          ord (Id_bin_id ?a ! i) XOR ord (Id_bin_id ?b ! i) < 2 ^ (k + 1) \<and>
          n = (ID_SIZE_BYTES - int i - 1) * BITS_PER_BYTE + int k)"
    by (elim exE conjE)
  have n: "n = 0" using r(1) log_distance_example by simp
  have "2 ^ nat n \<le> x XOR y \<and> x XOR y < 2 ^ (nat n + 1)"
    using mp [OF r(4) ne] by (elim conjE) (intro conjI)
  then have "2 ^ 0 \<le> x XOR y \<and> x XOR y < 2 ^ 1" unfolding n by simp
  then show ?thesis using r(2,3) log_distance_example
    by (intro exI [of _ x] exI [of _ y]) simp
qed

section \<open>Rejected constructor inputs\<close>






section \<open>The distance of two identifiers\<close>

text \<open>
  C1. The claim says that \<open>distance\<close> succeeds for every pair of valid identifiers.
  \<open>distance\<close> constructs its result from the integer \<open>self.int ^ other.int\<close>, and the
  integer branch of the constructor raises TypeError whenever the lower-case text of
  the integer holds one of the letters \<open>a\<close> to \<open>f\<close>. For the all-zero identifier and the
  identifier whose last byte is 10 the XOR is 10, and the call raises TypeError.
\<close>

theorem distance_raises_TypeError:
  "Id_init (PyStr (replicate 20 (CHR 0x00))) = Inr zero_id \<and>
   Id_init (PyStr (replicate 19 (CHR 0x00) @ [CHR 0x0A])) = Inr (last_byte_id (CHR 0x0A)) \<and>
   fst (distance zero_id (last_byte_id (CHR 0x0A))) = Inl TypeError"
proof (intro conjI)
  show "Id_init (PyStr (replicate 20 (CHR 0x00))) = Inr zero_id"
    unfolding zero_id_def by (rule Id_init_bytes) (simp add: ID_SIZE_BYTES_def)
  show "Id_init (PyStr (replicate 19 (CHR 0x00) @ [CHR 0x0A])) = Inr (last_byte_id (CHR 0x0A))"
    unfolding last_byte_id_def by (rule Id_init_bytes) (simp add: ID_SIZE_BYTES_def)
  show "fst (distance zero_id (last_byte_id (CHR 0x0A))) = Inl TypeError"
    by code_simp
qed

end
